theory Spec2Isabelle
  imports Complex_Main "HOL-Library.Word" "HOL-Library.Multiset"
begin

section \<open>The Wi-Fi distance study: campaign driver, metrics and CSV store\<close>

text \<open>
  A shallow embedding of \<^verbatim>\<open>src/wifi_simulation.cc\<close>: the helper
  \<^verbatim>\<open>WriteCsvHeaderIfNeeded\<close> and the body of \<^verbatim>\<open>main\<close>.

  Conventions of the embedding.
  \<^item> A C++ \<^verbatim>\<open>double\<close> is the real number it denotes, and every operation on
    doubles is the exact operation followed by the rounding \<open>fl\<close> of IEEE 754 binary64:
    to 53 significant bits, to the nearest value, a tie to the even significand. The
    exponent range of binary64 is not modelled, since the values of this program stay far
    inside it: a byte or packet total is below \<open>2^64\<close>, a \<^verbatim>\<open>Time\<close> is a 64-bit count of
    nanoseconds, a map has at most \<open>2^32\<close> entries. Division by zero is the one operation
    that leaves the finite numbers, so division returns an option and a metric is a
    \<^typ>\<open>real option\<close>, \<open>None\<close> standing for the infinity or NaN of IEEE.
  \<^item> \<^verbatim>\<open>uint64_t\<close> is \<^typ>\<open>64 word\<close>, with wrapping addition. The packet counters
    of \<^verbatim>\<open>FlowMonitor::FlowStats\<close> and the key \<^verbatim>\<open>FlowId\<close> are declared by ns-3 as
    \<^verbatim>\<open>uint32_t\<close>, hence \<^typ>\<open>32 word\<close>; an ns-3 \<^verbatim>\<open>Time\<close> holds a signed 64-bit
    count of nanoseconds.
  \<^item> The simulation engine (everything between building the nodes and
    \<^verbatim>\<open>Simulator::Run\<close>) is a parameter: a function from the distance and the list of
    installed senders to what \<^verbatim>\<open>main\<close> reads back afterwards.
  \<^item> The CSV file is a \<^typ>\<open>string option\<close>: \<open>None\<close> when the path cannot be opened
    for reading, \<open>Some c\<close> for a file with content \<open>c\<close>. The path is taken to be
    either absent or a regular file that the process may read and write, so every stream
    operation succeeds.
\<close>

subsection \<open>Binary64 arithmetic\<close>

text \<open>Rounding a real number to the nearest integer, a tie to the even one.\<close>

definition rint :: "real \<Rightarrow> int" where
  "rint y =
     (let f = \<lfloor>y\<rfloor>; r = y - of_int f
      in if r < 1 / 2 then f else if 1 / 2 < r then f + 1 else if even f then f else f + 1)"

text \<open>The number of binary digits of a positive integer.\<close>

function bits :: "int \<Rightarrow> int" where
  "bits n = (if n \<le> 0 then 0 else 1 + bits (n div 2))"
  by pat_completeness auto
termination
  by (relation "measure nat") auto

declare bits.simps [simp del]

text \<open>The binary exponent \<open>e\<close> of \<open>x \<noteq> 0\<close>, with \<open>2^e \<le> \<bar>x\<bar> < 2^(e+1)\<close>; the unit in
  the last place of a 53-bit significand at that exponent; the rounding.\<close>

definition expo :: "real \<Rightarrow> int" where
  "expo x =
     (if 1 \<le> \<bar>x\<bar> then bits \<lfloor>\<bar>x\<bar>\<rfloor> - 1 else - bits (\<lceil>1 / \<bar>x\<bar>\<rceil> - 1))"

definition ulp :: "real \<Rightarrow> real" where
  "ulp x = 2 powi (expo x - 52)"

definition fl :: "real \<Rightarrow> real" where
  "fl x = (if x = 0 then 0 else of_int (rint (x / ulp x)) * ulp x)"

text \<open>The operators \<^verbatim>\<open>+\<close>, \<^verbatim>\<open>-\<close>, \<^verbatim>\<open>*\<close> and \<^verbatim>\<open>/\<close> on doubles, and the
  conversion of a \<^verbatim>\<open>uint64_t\<close> to a double.\<close>

definition dadd :: "real \<Rightarrow> real \<Rightarrow> real" where
  "dadd x y = fl (x + y)"

definition dsub :: "real \<Rightarrow> real \<Rightarrow> real" where
  "dsub x y = fl (x - y)"

definition dmul :: "real \<Rightarrow> real \<Rightarrow> real" where
  "dmul x y = fl (x * y)"

definition ddiv :: "real \<Rightarrow> real \<Rightarrow> real option" where
  "ddiv x y = (if y = 0 then None else Some (fl (x / y)))"

definition of_u64 :: "64 word \<Rightarrow> real" where
  "of_u64 w = fl (real_of_int (uint w))"

subsection \<open>Data\<close>

type_synonym FlowId = "32 word"

text \<open>An ns-3 \<^verbatim>\<open>Time\<close>, a signed count of nanoseconds, and \<^verbatim>\<open>Time::GetSeconds()\<close>,
  which returns it in seconds as a double: the double nearest to the count divided by
  \<open>10^9\<close>.\<close>

type_synonym Time = "64 word"

definition GetSeconds :: "Time \<Rightarrow> real" where
  "GetSeconds t = fl (real_of_int (sint t) / 1000000000)"

text \<open>The fields of \<^verbatim>\<open>FlowMonitor::FlowStats\<close> that \<^verbatim>\<open>main\<close> reads.\<close>

record FlowStats =
  delaySum :: Time
  rxPackets :: "32 word"
  txPackets :: "32 word"
  lostPackets :: "32 word"

text \<open>What the engine exposes after \<^verbatim>\<open>Simulator::Run\<close>: the result of
  \<^verbatim>\<open>DynamicCast<PacketSink>(sinkApp.Get(0))\<close> (\<open>None\<close> for a null pointer,
  otherwise the sink's \<^verbatim>\<open>GetTotalRx()\<close>), and the \<^verbatim>\<open>std::map\<close> returned by
  \<^verbatim>\<open>GetFlowStats()\<close> as the list of its entries in iteration order.\<close>

record EngineOutput =
  sink :: "64 word option"
  stats :: "(FlowId \<times> FlowStats) list"

text \<open>One \<^verbatim>\<open>BulkSend\<close> application of the traffic plan.\<close>

record Sender =
  station :: nat
  startTime :: real
  stopTime :: real

type_synonym Engine = "real \<Rightarrow> Sender list \<Rightarrow> EngineOutput"

text \<open>The local accumulators of the metrics loop: \<^verbatim>\<open>sumDelaySec\<close>,
  \<^verbatim>\<open>rxPackets\<close>, \<^verbatim>\<open>txPackets\<close>, \<^verbatim>\<open>lostPackets\<close> of \<^verbatim>\<open>main\<close>.\<close>

record Counters =
  sumDelaySec :: real
  rxTotal :: "64 word"
  txTotal :: "64 word"
  lostTotal :: "64 word"

text \<open>The four values written to one CSV row.\<close>

record ScenarioResult =
  distance :: real
  throughputMbps :: "real option"
  avgDelayMs :: "real option"
  lossPct :: "real option"

subsection \<open>Constants of \<^verbatim>\<open>main\<close>\<close>

definition distances :: "real list" where
  "distances = [5, 10, 20, 35, 50]"

definition appStart :: real where
  "appStart = 1"

definition appStop :: real where
  "appStop = 10"

definition simStop :: real where
  "simStop = 12"

definition stationCount :: nat where
  "stationCount = 3"

definition header_line :: string where
  "header_line = ''distance_m,throughput_mbps,avg_delay_ms,packet_loss_percent''"

definition csvHeader :: string where
  "csvHeader = header_line @ [CHR 0x0A]"

subsection \<open>Traffic plan\<close>

text \<open>The loop \<^verbatim>\<open>for (uint32_t i = 0; i < wifiStaNodes.GetN(); ++i)\<close>, for a station
  container of \<open>n\<close> nodes; the start time is \<^verbatim>\<open>appStart + 0.1 * i\<close> in doubles.\<close>

definition senders :: "nat \<Rightarrow> Sender list" where
  "senders n =
     map (\<lambda>i. \<lparr>station = i, startTime = dadd appStart (dmul (fl (1 / 10)) (real i)),
                stopTime = appStop\<rparr>)
       [0..<n]"

subsection \<open>Metrics\<close>

definition totalRx :: "64 word option \<Rightarrow> 64 word" where
  "totalRx s = (case s of None \<Rightarrow> 0 | Some rx \<Rightarrow> rx)"

definition duration :: real where
  "duration = dsub appStop appStart"

definition throughput :: "64 word \<Rightarrow> real option" where
  "throughput rx = ddiv (dmul (of_u64 rx) 8) (dmul duration 1000000)"

definition initCounters :: Counters where
  "initCounters = \<lparr>sumDelaySec = 0, rxTotal = 0, txTotal = 0, lostTotal = 0\<rparr>"

definition addFlow :: "Counters \<Rightarrow> FlowStats \<Rightarrow> Counters" where
  "addFlow c st =
     \<lparr>sumDelaySec = dadd (sumDelaySec c) (GetSeconds (delaySum st)),
      rxTotal = rxTotal c + ucast (rxPackets st),
      txTotal = txTotal c + ucast (txPackets st),
      lostTotal = lostTotal c + ucast (lostPackets st)\<rparr>"

primrec accumulate :: "Counters \<Rightarrow> (FlowId \<times> FlowStats) list \<Rightarrow> Counters" where
  "accumulate c [] = c"
| "accumulate c (kv # kvs) = accumulate (addFlow c (snd kv)) kvs"

definition avgDelay :: "Counters \<Rightarrow> real option" where
  "avgDelay c =
     (if rxTotal c > 0
      then map_option (\<lambda>q. dmul q 1000) (ddiv (sumDelaySec c) (of_u64 (rxTotal c)))
      else Some 0)"

definition loss :: "Counters \<Rightarrow> real option" where
  "loss c =
     (if txTotal c > 0
      then ddiv (dmul 100 (of_u64 (lostTotal c))) (of_u64 (txTotal c))
      else Some 0)"

definition metrics :: "real \<Rightarrow> EngineOutput \<Rightarrow> ScenarioResult" where
  "metrics d out =
     (let c = accumulate initCounters (stats out)
      in \<lparr>distance = d,
          throughputMbps = throughput (totalRx (sink out)),
          avgDelayMs = avgDelay c,
          lossPct = loss c\<rparr>)"

subsection \<open>Fixed formatting with two fractional digits\<close>

text \<open>The stream manipulators \<^verbatim>\<open>std::fixed << std::setprecision(2)\<close> print a double as
  \<^verbatim>\<open>printf("%.2f")\<close> does: an optional minus sign, the integer part without leading
  zeros, a point and two digits, the value rounded to the nearest hundredth (a tie to the
  even one).\<close>

definition digit_char :: "nat \<Rightarrow> char" where
  "digit_char n = ''0123456789'' ! (n mod 10)"

fun dec_digits :: "nat \<Rightarrow> string" where
  "dec_digits n =
     (if n < 10 then [digit_char n] else dec_digits (n div 10) @ [digit_char (n mod 10)])"

declare dec_digits.simps [simp del]

definition hundredths :: "real \<Rightarrow> nat" where
  "hundredths x = nat (rint (\<bar>x\<bar> * 100))"

definition fixed2 :: "real \<Rightarrow> string" where
  "fixed2 x =
     (let n = hundredths x
      in (if x < 0 then ''-'' else '''') @ dec_digits (n div 100) @ ''.'' @
         [digit_char (n div 10), digit_char n])"

definition put_double :: "real option \<Rightarrow> string" where
  "put_double v = (case v of None \<Rightarrow> ''nan'' | Some x \<Rightarrow> fixed2 x)"

subsection \<open>The CSV store\<close>

type_synonym Store = "string option"

definition WriteCsvHeaderIfNeeded :: "Store \<Rightarrow> Store" where
  "WriteCsvHeaderIfNeeded csv =
     (let exists = (csv \<noteq> None)
      in if \<not> exists then Some csvHeader else csv)"

text \<open>\<^verbatim>\<open>std::ofstream out(csvPath, std::ios_base::app); out << s; out.close()\<close>\<close>

definition append_csv :: "Store \<Rightarrow> string \<Rightarrow> Store" where
  "append_csv csv s = Some ((case csv of None \<Rightarrow> [] | Some c \<Rightarrow> c) @ s)"

definition csv_row :: "ScenarioResult \<Rightarrow> string" where
  "csv_row r =
     fixed2 (distance r) @ '','' @ put_double (throughputMbps r) @ '','' @
     put_double (avgDelayMs r) @ '','' @ put_double (lossPct r) @ [CHR 0x0A]"

subsection \<open>The campaign\<close>

text \<open>One iteration of the loop over the distances, for a station container of \<open>n\<close>
  nodes: build and run (the engine), compute the metrics, append the row.\<close>

definition scenario :: "Engine \<Rightarrow> nat \<Rightarrow> real \<Rightarrow> ScenarioResult" where
  "scenario eng n d = metrics d (eng d (senders n))"

definition run_scenario :: "Engine \<Rightarrow> nat \<Rightarrow> Store \<Rightarrow> real \<Rightarrow> Store" where
  "run_scenario eng n csv d = append_csv csv (csv_row (scenario eng n d))"

definition campaign :: "Engine \<Rightarrow> nat \<Rightarrow> real list \<Rightarrow> Store \<Rightarrow> Store" where
  "campaign eng n ds csv = foldl (run_scenario eng n) (WriteCsvHeaderIfNeeded csv) ds"

text \<open>\<^verbatim>\<open>main\<close>: the store afterwards and the exit code.\<close>

definition main :: "Engine \<Rightarrow> Store \<Rightarrow> Store \<times> int" where
  "main eng csv = (campaign eng stationCount distances csv, 0)"

subsection \<open>The formulas of the specification\<close>

text \<open>The totals named by the specification, taken over the flow records of one
  scenario: the three packet counters as natural numbers, without any wrap-around, and
  the delays in seconds as exact numbers.\<close>

definition sum_rx :: "(FlowId \<times> FlowStats) list \<Rightarrow> nat" where
  "sum_rx kvs = sum_list (map (\<lambda>kv. unat (rxPackets (snd kv))) kvs)"

definition sum_tx :: "(FlowId \<times> FlowStats) list \<Rightarrow> nat" where
  "sum_tx kvs = sum_list (map (\<lambda>kv. unat (txPackets (snd kv))) kvs)"

definition sum_lost :: "(FlowId \<times> FlowStats) list \<Rightarrow> nat" where
  "sum_lost kvs = sum_list (map (\<lambda>kv. unat (lostPackets (snd kv))) kvs)"

definition seconds :: "Time \<Rightarrow> real" where
  "seconds t = real_of_int (sint t) / 1000000000"

definition spec_sum_delay :: "(FlowId \<times> FlowStats) list \<Rightarrow> real" where
  "spec_sum_delay kvs = sum_list (map (\<lambda>kv. seconds (delaySum (snd kv))) kvs)"

text \<open>The three metrics in the specification's words, in exact arithmetic: the received
  bytes times \<open>8\<close> over the duration times a million; the sum of \<open>delaySum\<close> divided by the
  sum of \<open>rxPackets\<close>, in milliseconds, and \<open>0\<close> when nothing was received; a hundred times
  the sum of \<open>lostPackets\<close> divided by the sum of \<open>txPackets\<close>, and \<open>0\<close> when nothing was
  sent.\<close>

definition spec_throughput :: "64 word \<Rightarrow> real" where
  "spec_throughput rx = real (unat rx) * 8 / ((appStop - appStart) * 1000000)"

definition spec_avgDelayMs :: "(FlowId \<times> FlowStats) list \<Rightarrow> real" where
  "spec_avgDelayMs kvs =
     (if sum_rx kvs = 0 then 0 else spec_sum_delay kvs / real (sum_rx kvs) * 1000)"

definition spec_lossPercent :: "(FlowId \<times> FlowStats) list \<Rightarrow> real" where
  "spec_lossPercent kvs =
     (if sum_tx kvs = 0 then 0 else 100 * real (sum_lost kvs) / real (sum_tx kvs))"

text \<open>The same three formulas with every operation rounded to binary64: the conversions
  of the integers, the additions of the delays in iteration order, the products and the
  quotients.\<close>

definition sum_delay :: "(FlowId \<times> FlowStats) list \<Rightarrow> real" where
  "sum_delay kvs = foldl (\<lambda>s kv. fl (s + fl (seconds (delaySum (snd kv))))) 0 kvs"

definition rounded_throughput :: "64 word \<Rightarrow> real" where
  "rounded_throughput rx =
     fl (fl (fl (real (unat rx)) * 8) / ((appStop - appStart) * 1000000))"

definition rounded_avgDelayMs :: "(FlowId \<times> FlowStats) list \<Rightarrow> real" where
  "rounded_avgDelayMs kvs =
     (if sum_rx kvs = 0 then 0
      else fl (fl (sum_delay kvs / fl (real (sum_rx kvs))) * 1000))"

definition rounded_lossPercent :: "(FlowId \<times> FlowStats) list \<Rightarrow> real" where
  "rounded_lossPercent kvs =
     (if sum_tx kvs = 0 then 0
      else fl (fl (100 * fl (real (sum_lost kvs))) / fl (real (sum_tx kvs))))"

text \<open>The unit roundoff of binary64.\<close>

definition unit_roundoff :: real where
  "unit_roundoff = 1 / 2 ^ 53"

text \<open>Flow records whose delay sums are not negative; flow records without any packet; a
  row whose metrics are finite and within their ranges.\<close>

definition nonneg_delays :: "(FlowId \<times> FlowStats) list \<Rightarrow> bool" where
  "nonneg_delays kvs = list_all (\<lambda>kv. 0 \<le> sint (delaySum (snd kv))) kvs"


definition row_in_range :: "ScenarioResult \<Rightarrow> bool" where
  "row_in_range r =
     (case (throughputMbps r, avgDelayMs r, lossPct r) of
        (Some t, Some a, Some l) \<Rightarrow> 0 \<le> t \<and> 0 \<le> a \<and> 0 \<le> l \<and> l \<le> 100
      | _ \<Rightarrow> False)"

subsection \<open>Reading the store back\<close>

text \<open>How a reader of the CSV file sees it. \<open>pieces sep [] s\<close> cuts \<open>s\<close> at every
  separator \<open>sep\<close>; text after the last separator is a piece of its own unless it is
  empty. The lines of the file are its pieces at the newline, the fields of a line its
  pieces at the comma.\<close>

primrec pieces :: "char \<Rightarrow> string \<Rightarrow> string \<Rightarrow> string list" where
  "pieces sep cur [] = (if cur = [] then [] else [rev cur])"
| "pieces sep cur (c # cs) =
     (if c = sep then rev cur # pieces sep [] cs else pieces sep (c # cur) cs)"

definition csv_lines :: "Store \<Rightarrow> string list" where
  "csv_lines csv = (case csv of None \<Rightarrow> [] | Some c \<Rightarrow> pieces (CHR 0x0A) [] c)"

definition fields :: "string \<Rightarrow> string list" where
  "fields line = pieces (CHR '','') [] line"

definition header_rows :: "Store \<Rightarrow> string list" where
  "header_rows csv = filter (\<lambda>l. l = header_line) (csv_lines csv)"

definition data_rows :: "Store \<Rightarrow> string list" where
  "data_rows csv = filter (\<lambda>l. l \<noteq> header_line) (csv_lines csv)"

text \<open>A row as a line of the file, without its newline.\<close>

definition row_text :: "ScenarioResult \<Rightarrow> string" where
  "row_text r = butlast (csv_row r)"

text \<open>The number that a decimal numeral denotes: digits, an optional point and
  fraction, an optional leading minus sign.\<close>

definition digit_val :: "char \<Rightarrow> nat" where
  "digit_val c = of_char c - 48"

definition read_digits :: "string \<Rightarrow> nat" where
  "read_digits s = foldl (\<lambda>a c. 10 * a + digit_val c) 0 s"

definition read_unsigned :: "string \<Rightarrow> real" where
  "read_unsigned s =
     (let ip = takeWhile (\<lambda>c. c \<noteq> CHR ''.'') s;
          fp = drop 1 (dropWhile (\<lambda>c. c \<noteq> CHR ''.'') s)
      in real (read_digits ip) + real (read_digits fp) / 10 ^ length fp)"

definition fixed_value :: "string \<Rightarrow> real" where
  "fixed_value s =
     (case s of [] \<Rightarrow> 0
      | c # cs \<Rightarrow> if c = CHR ''-'' then - read_unsigned cs else read_unsigned s)"

definition fraction_digits :: "string \<Rightarrow> string" where
  "fraction_digits s = drop 1 (dropWhile (\<lambda>c. c \<noteq> CHR ''.'') s)"

subsection \<open>Engine outputs used as examples\<close>

text \<open>\<open>k\<close> flows with the same statistics under the flow identifiers \<open>0, 1, \<dots>, k - 1\<close>;
  an engine that reports one flow with a packet sent and lost, whatever the traffic plan;
  an engine that reports nothing for the empty traffic plan.\<close>

definition many_flows :: "nat \<Rightarrow> FlowStats \<Rightarrow> (FlowId \<times> FlowStats) list" where
  "many_flows k st = zip (map word_of_nat [0..<k]) (replicate k st)"



section \<open>Properties\<close>

subsection \<open>Rounding to binary64\<close>

text \<open>The exponent found by \<open>expo\<close> is the right one; rounding to the nearest integer
  is monotone and exact on integers; hence \<open>fl\<close> is exact on integers below \<open>2^53\<close>, has a
  relative error of at most \<open>2^-53\<close>, keeps the sign and is monotone on the numbers that
  are not negative.\<close>

lemma bits_nonpos: "n \<le> 0 \<Longrightarrow> bits n = 0"
  by (simp add: bits.simps)

lemma bits_pos: "0 < n \<Longrightarrow> bits n = 1 + bits (n div 2)"
  by (subst bits.simps) simp

lemma bits_ge_0: "0 \<le> bits n"
  by (induction n rule: bits.induct) (subst bits.simps, simp)

lemma bits_ge_1: "0 < n \<Longrightarrow> 1 \<le> bits n"
  using bits_ge_0 [of "n div 2"] by (simp add: bits_pos)

lemma bits_bounds:
  "0 < n \<Longrightarrow> (2::int) ^ nat (bits n - 1) \<le> n \<and> n < 2 ^ nat (bits n)"
proof (induction n rule: bits.induct)
  case (1 n)
  show ?case
  proof (cases "n = 1")
    case True
    then show ?thesis
      by (simp add: bits_pos bits_nonpos)
  next
    case False
    with "1.prems" have half: "0 < n div 2"
      by simp
    with "1.IH" "1.prems" have ih:
      "(2::int) ^ nat (bits (n div 2) - 1) \<le> n div 2" "n div 2 < 2 ^ nat (bits (n div 2))"
      by simp_all
    have b: "bits n = 1 + bits (n div 2)"
      using "1.prems" by (rule bits_pos)
    have b1: "1 \<le> bits (n div 2)"
      using half by (rule bits_ge_1)
    have p1: "(2::int) ^ nat (bits n - 1) = 2 * 2 ^ nat (bits (n div 2) - 1)"
    proof -
      have "nat (bits n - 1) = Suc (nat (bits (n div 2) - 1))"
        using b b1 by simp
      then show ?thesis by simp
    qed
    have p2: "(2::int) ^ nat (bits n) = 2 * 2 ^ nat (bits (n div 2))"
    proof -
      have "nat (bits n) = Suc (nat (bits (n div 2)))"
        using b b1 by simp
      then show ?thesis by simp
    qed
    have "2 * (n div 2) \<le> n" and "n < 2 * (n div 2) + 2"
      by simp_all
    with ih show ?thesis
      unfolding p1 p2 by linarith
  qed
qed

lemma pow2_nat: "0 \<le> k \<Longrightarrow> (2::real) powi k = 2 ^ nat k"
  by (rule power_int_nonneg_exp)

lemma pow2_neg: "0 \<le> k \<Longrightarrow> (2::real) powi (- k) = 1 / 2 ^ nat k"
  by (simp add: power_int_minus_divide power_int_nonneg_exp)

lemma pow2_pos: "0 < (2::real) powi k"
  by simp

lemma pow2_less_cancel: "(2::real) powi a < 2 powi b \<Longrightarrow> a < b"
proof (rule ccontr)
  assume lt: "(2::real) powi a < 2 powi b" and "\<not> a < b"
  then have "b \<le> a" by simp
  then have "(2::real) powi b \<le> 2 powi a"
    by (rule power_int_increasing) simp
  with lt show False by simp
qed

lemma pow2_le_of_int: "(2::int) ^ k \<le> m \<Longrightarrow> (2::real) ^ k \<le> real_of_int m"
proof -
  assume "(2::int) ^ k \<le> m"
  then have "real_of_int (2 ^ k) \<le> real_of_int m"
    by (simp only: of_int_le_iff)
  then show ?thesis by simp
qed

lemma of_int_less_pow2: "m < (2::int) ^ k \<Longrightarrow> real_of_int m < (2::real) ^ k"
proof -
  assume "m < (2::int) ^ k"
  then have "real_of_int m < real_of_int (2 ^ k)"
    by (simp only: of_int_less_iff)
  then show ?thesis by simp
qed

lemma expo_bounds_large:
  assumes "1 \<le> \<bar>x\<bar>"
  shows "2 powi (expo x) \<le> \<bar>x\<bar> \<and> \<bar>x\<bar> < 2 powi (expo x + 1)"
proof -
  let ?f = "\<lfloor>\<bar>x\<bar>\<rfloor>"
  have f: "0 < ?f" using assms by simp
  have e: "expo x = bits ?f - 1"
    using assms by (simp add: expo_def)
  have b1: "1 \<le> bits ?f"
    using f by (rule bits_ge_1)
  from bits_bounds [OF f] have lo: "(2::int) ^ nat (bits ?f - 1) \<le> ?f"
    and hi: "?f < 2 ^ nat (bits ?f)" by simp_all
  have "(2::real) ^ nat (bits ?f - 1) \<le> real_of_int ?f"
    using lo by (rule pow2_le_of_int)
  moreover have "real_of_int ?f \<le> \<bar>x\<bar>"
    by (rule of_int_floor_le)
  moreover have "2 powi (expo x) = (2::real) ^ nat (bits ?f - 1)"
    using b1 by (simp only: e) (rule pow2_nat, simp)
  ultimately have 1: "2 powi (expo x) \<le> \<bar>x\<bar>"
    by linarith
  have "?f + 1 \<le> 2 ^ nat (bits ?f)"
    using hi by simp
  then have "real_of_int ?f + 1 \<le> (2::real) ^ nat (bits ?f)"
    using of_int_le_iff [of "?f + 1" "2 ^ nat (bits ?f)", where ?'a = real]
    by simp
  moreover have "\<bar>x\<bar> < real_of_int ?f + 1"
    by linarith
  moreover have "2 powi (expo x + 1) = (2::real) ^ nat (bits ?f)"
    using b1 by (simp only: e) (simp add: pow2_nat)
  ultimately have 2: "\<bar>x\<bar> < 2 powi (expo x + 1)"
    by linarith
  from 1 2 show ?thesis by simp
qed

lemma expo_bounds_small:
  assumes "x \<noteq> 0" and "\<bar>x\<bar> < 1"
  shows "2 powi (expo x) \<le> \<bar>x\<bar> \<and> \<bar>x\<bar> < 2 powi (expo x + 1)"
proof -
  let ?y = "1 / \<bar>x\<bar>"
  let ?n = "\<lceil>?y\<rceil> - 1"
  have xpos: "0 < \<bar>x\<bar>" using assms(1) by simp
  have y1: "1 < ?y" using assms xpos by simp
  then have "1 < \<lceil>?y\<rceil>" by (simp add: less_ceiling_iff)
  then have n: "0 < ?n" by simp
  have e: "expo x = - bits ?n"
    using assms(2) by (simp add: expo_def)
  have b1: "1 \<le> bits ?n"
    using n by (rule bits_ge_1)
  from bits_bounds [OF n] have lo: "(2::int) ^ nat (bits ?n - 1) \<le> ?n"
    and hi: "?n < 2 ^ nat (bits ?n)" by simp_all
  have "\<lceil>?y\<rceil> \<le> 2 ^ nat (bits ?n)"
    using hi by simp
  then have "real_of_int \<lceil>?y\<rceil> \<le> (2::real) ^ nat (bits ?n)"
    using of_int_le_iff [of "\<lceil>?y\<rceil>" "2 ^ nat (bits ?n)", where ?'a = real] by simp
  moreover have "?y \<le> real_of_int \<lceil>?y\<rceil>"
    by (rule le_of_int_ceiling)
  ultimately have yhi: "?y \<le> 2 ^ nat (bits ?n)"
    by linarith
  have "(2::real) ^ nat (bits ?n - 1) \<le> real_of_int ?n"
    using lo by (rule pow2_le_of_int)
  moreover have "real_of_int ?n < ?y"
    by linarith
  ultimately have ylo: "2 ^ nat (bits ?n - 1) < ?y"
    by linarith
  have 1: "2 powi (expo x) \<le> \<bar>x\<bar>"
  proof -
    have "1 / 2 ^ nat (bits ?n) \<le> \<bar>x\<bar>"
      using yhi xpos by (simp add: field_simps)
    then show ?thesis
      using b1 by (simp add: e pow2_neg)
  qed
  have 2: "\<bar>x\<bar> < 2 powi (expo x + 1)"
  proof -
    have "\<bar>x\<bar> < 1 / 2 ^ nat (bits ?n - 1)"
      using ylo xpos by (simp add: field_simps)
    moreover have "expo x + 1 = - (bits ?n - 1)"
      by (simp add: e)
    ultimately show ?thesis
      using b1 by (simp only: pow2_neg)
  qed
  from 1 2 show ?thesis by simp
qed

lemma expo_bounds:
  assumes "x \<noteq> 0"
  shows "2 powi (expo x) \<le> \<bar>x\<bar>" and "\<bar>x\<bar> < 2 powi (expo x + 1)"
  using expo_bounds_large [of x] expo_bounds_small [of x] assms
  by (cases "1 \<le> \<bar>x\<bar>"; simp)+

lemma expo_unique:
  assumes "2 powi e \<le> \<bar>x\<bar>" and "\<bar>x\<bar> < 2 powi (e + 1)"
  shows "expo x = e"
proof -
  have "x \<noteq> 0"
  proof
    assume "x = 0"
    with assms(1) have "(2::real) powi e \<le> 0" by simp
    with pow2_pos [of e] show False by linarith
  qed
  note b = expo_bounds [OF this]
  have "(2::real) powi e < 2 powi (expo x + 1)"
    using assms(1) b(2) by simp
  then have "e < expo x + 1" by (rule pow2_less_cancel)
  moreover have "(2::real) powi (expo x) < 2 powi (e + 1)"
    using assms(2) b(1) by simp
  then have "expo x < e + 1" by (rule pow2_less_cancel)
  ultimately show ?thesis by simp
qed

lemma rint_error: "\<bar>real_of_int (rint y) - y\<bar> \<le> 1 / 2"
proof -
  have "real_of_int \<lfloor>y\<rfloor> \<le> y" and "y < real_of_int \<lfloor>y\<rfloor> + 1"
    by linarith+
  then show ?thesis
    by (auto simp: rint_def Let_def)
qed

lemma rint_of_int: "rint (of_int k) = k"
  by (simp add: rint_def)

lemma rint_range: "\<lfloor>y\<rfloor> \<le> rint y \<and> rint y \<le> \<lfloor>y\<rfloor> + 1"
  by (simp add: rint_def Let_def)

lemma rint_mono:
  assumes "x \<le> y"
  shows "rint x \<le> rint y"
proof (cases "\<lfloor>x\<rfloor> = \<lfloor>y\<rfloor>")
  case False
  with assms have "\<lfloor>x\<rfloor> < \<lfloor>y\<rfloor>"
    using floor_mono [OF assms] by simp
  then show ?thesis
    using rint_range [of x] rint_range [of y] by linarith
next
  case True
  have "x - of_int \<lfloor>x\<rfloor> \<le> y - of_int \<lfloor>x\<rfloor>"
    using assms by simp
  then show ?thesis
    by (simp add: rint_def Let_def True [symmetric])
qed

lemma rint_nonneg: "0 \<le> y \<Longrightarrow> 0 \<le> rint y"
  using rint_mono [of 0 y] rint_of_int [of 0] by simp

lemma ulp_pos: "0 < ulp x"
  by (simp add: ulp_def)

lemma ulp_le: "x \<noteq> 0 \<Longrightarrow> ulp x \<le> \<bar>x\<bar> / 2 ^ 52"
proof -
  assume "x \<noteq> 0"
  then have "2 powi (expo x) \<le> \<bar>x\<bar>" by (rule expo_bounds)
  moreover have "ulp x = 2 powi (expo x) / 2 ^ 52"
    by (simp add: ulp_def power_int_diff)
  ultimately show ?thesis
    by (simp add: divide_right_mono)
qed

lemma fl_zero: "fl 0 = 0"
  by (simp add: fl_def)

lemma fl_error: "\<bar>fl x - x\<bar> \<le> ulp x / 2"
proof (cases "x = 0")
  case True
  then show ?thesis using ulp_pos [of x] by (simp add: fl_def)
next
  case False
  have "x = (x / ulp x) * ulp x"
    using ulp_pos [of x] by simp
  then have "fl x - x = (real_of_int (rint (x / ulp x)) - x / ulp x) * ulp x"
    using False by (simp add: fl_def left_diff_distrib)
  then have "\<bar>fl x - x\<bar> = \<bar>real_of_int (rint (x / ulp x)) - x / ulp x\<bar> * ulp x"
    using ulp_pos [of x] by (simp add: abs_mult)
  also have "\<dots> \<le> (1 / 2) * ulp x"
    using rint_error [of "x / ulp x"] ulp_pos [of x] by (intro mult_right_mono) simp_all
  finally show ?thesis by simp
qed

lemma fl_relative: "\<bar>fl x - x\<bar> \<le> \<bar>x\<bar> / 2 ^ 53"
proof (cases "x = 0")
  case True
  then show ?thesis by (simp add: fl_zero)
next
  case False
  from ulp_le [OF False] have "ulp x / 2 \<le> \<bar>x\<bar> / 2 ^ 52 / 2"
    by simp
  with fl_error [of x] show ?thesis by simp
qed

lemma fl_exact:
  assumes "x / ulp x = of_int k"
  shows "fl x = x"
proof (cases "x = 0")
  case True
  then show ?thesis by (simp add: fl_zero)
next
  case False
  have "x = (x / ulp x) * ulp x"
    using ulp_pos [of x] by simp
  with False show ?thesis
    by (simp add: fl_def assms rint_of_int)
qed

lemma fl_int:
  assumes "\<bar>n\<bar> < 2 ^ 53"
  shows "fl (of_int n) = of_int n"
proof (cases "n = 0")
  case True
  then show ?thesis by (simp add: fl_zero)
next
  case False
  let ?x = "real_of_int n"
  have nz: "?x \<noteq> 0" using False by simp
  have "\<bar>?x\<bar> < 2 ^ 53"
    using assms of_int_less_pow2 [of "\<bar>n\<bar>" 53] by simp
  then have "\<bar>?x\<bar> < 2 powi 53" by simp
  with expo_bounds(1) [OF nz] have "(2::real) powi (expo ?x) < 2 powi 53"
    by linarith
  then have e: "expo ?x < 53" by (rule pow2_less_cancel)
  then have "0 \<le> 52 - expo ?x" by simp
  then have u: "ulp ?x = 1 / 2 ^ nat (52 - expo ?x)"
    using pow2_neg [of "52 - expo ?x"] by (simp add: ulp_def)
  have "?x / ulp ?x = of_int (n * 2 ^ nat (52 - expo ?x))"
    by (simp add: u)
  then show ?thesis by (rule fl_exact)
qed

lemma fl_nat: "n < 2 ^ 53 \<Longrightarrow> fl (real n) = real n"
  using fl_int [of "int n"] by simp

lemma fl_nonneg: "0 \<le> x \<Longrightarrow> 0 \<le> fl x"
proof -
  assume "0 \<le> x"
  then have "0 \<le> x / ulp x"
    using ulp_pos [of x] by simp
  then have "0 \<le> rint (x / ulp x)" by (rule rint_nonneg)
  then show ?thesis
    using ulp_pos [of x] by (simp add: fl_def)
qed

lemma scaled_range:
  assumes "0 < x"
  shows "2 ^ 52 \<le> x / ulp x" and "x / ulp x < 2 ^ 53"
proof -
  have nz: "x \<noteq> 0" using assms by simp
  have u: "ulp x * 2 ^ 52 = 2 powi (expo x)"
    by (simp add: ulp_def power_int_diff)
  have u2: "ulp x * 2 ^ 53 = 2 powi (expo x + 1)"
    by (simp add: ulp_def power_int_diff power_int_add)
  have ax: "\<bar>x\<bar> = x" using assms by simp
  have "ulp x * 2 ^ 52 \<le> x"
    unfolding u using expo_bounds(1) [OF nz] by (simp only: ax)
  moreover have "x < ulp x * 2 ^ 53"
    unfolding u2 using expo_bounds(2) [OF nz] by (simp only: ax)
  ultimately have "ulp x * 2 ^ 52 \<le> x" "x < ulp x * 2 ^ 53"
    by blast+
  then show "2 ^ 52 \<le> x / ulp x" and "x / ulp x < 2 ^ 53"
    using ulp_pos [of x] by (simp_all add: field_simps)
qed

lemma fl_lower:
  assumes "0 < x"
  shows "2 powi (expo x) \<le> fl x"
proof -
  have "rint (of_int (2 ^ 52)) \<le> rint (x / ulp x)"
    using scaled_range(1) [OF assms] by (intro rint_mono) simp
  then have "(2::int) ^ 52 \<le> rint (x / ulp x)"
    by (simp only: rint_of_int)
  then have "(2::real) ^ 52 \<le> real_of_int (rint (x / ulp x))"
    by (rule pow2_le_of_int)
  then have "2 ^ 52 * ulp x \<le> real_of_int (rint (x / ulp x)) * ulp x"
    using ulp_pos [of x] by (intro mult_right_mono) simp_all
  moreover have "2 ^ 52 * ulp x = 2 powi (expo x)"
    by (simp add: ulp_def power_int_diff)
  ultimately show ?thesis
    using assms by (simp add: fl_def)
qed

lemma fl_upper:
  assumes "0 < x"
  shows "fl x \<le> 2 powi (expo x + 1)"
proof -
  have "rint (x / ulp x) \<le> rint (of_int (2 ^ 53))"
    using scaled_range(2) [OF assms] by (intro rint_mono) simp
  then have "rint (x / ulp x) \<le> 2 ^ 53"
    by (simp only: rint_of_int)
  then have "real_of_int (rint (x / ulp x)) \<le> real_of_int (2 ^ 53)"
    by (simp only: of_int_le_iff)
  then have "real_of_int (rint (x / ulp x)) * ulp x \<le> 2 ^ 53 * ulp x"
    using ulp_pos [of x] by (intro mult_right_mono) simp_all
  moreover have "2 ^ 53 * ulp x = 2 powi (expo x + 1)"
    by (simp add: ulp_def power_int_diff power_int_add)
  ultimately show ?thesis
    using assms by (simp add: fl_def)
qed

lemma fl_pos: "0 < x \<Longrightarrow> 0 < fl x"
  using fl_lower [of x] pow2_pos [of "expo x"] by linarith

lemma expo_mono:
  assumes "0 < x" and "x \<le> y"
  shows "expo x \<le> expo y"
proof -
  have "x \<noteq> 0" "y \<noteq> 0" using assms by simp_all
  from expo_bounds(1) [OF this(1)] expo_bounds(2) [OF this(2)] assms
  have "(2::real) powi (expo x) < 2 powi (expo y + 1)"
    by simp
  then have "expo x < expo y + 1" by (rule pow2_less_cancel)
  then show ?thesis by simp
qed

lemma fl_mono:
  assumes "0 \<le> x" and "x \<le> y"
  shows "fl x \<le> fl y"
proof (cases "x = 0")
  case True
  then show ?thesis
    using fl_nonneg [of y] assms by (simp add: fl_zero)
next
  case False
  with assms have px: "0 < x" and py: "0 < y" by simp_all
  show ?thesis
  proof (cases "expo x = expo y")
    case True
    then have u: "ulp x = ulp y" by (simp add: ulp_def)
    have "x / ulp y \<le> y / ulp y"
      using assms(2) ulp_pos [of y] by (simp add: divide_right_mono)
    then have "rint (x / ulp y) \<le> rint (y / ulp y)" by (rule rint_mono)
    then have "real_of_int (rint (x / ulp y)) * ulp y \<le> real_of_int (rint (y / ulp y)) * ulp y"
      using ulp_pos [of y] by (intro mult_right_mono) simp_all
    then show ?thesis
      using px py by (simp add: fl_def u)
  next
    case False
    with expo_mono [OF px assms(2)] have "expo x + 1 \<le> expo y" by simp
    then have "(2::real) powi (expo x + 1) \<le> 2 powi (expo y)"
      by (rule power_int_increasing) simp
    with fl_upper [OF px] fl_lower [OF py] show ?thesis by linarith
  qed
qed

lemmas fl_eval = fl_def ulp_def expo_def bits_pos bits_nonpos rint_def Let_def

subsection \<open>The packet totals do not wrap\<close>

text \<open>A \<^verbatim>\<open>std::map\<close> holds each key once, and a key is a 32-bit value, so the map has
  at most \<open>2^32\<close> entries. Each counter is below \<open>2^32\<close>, hence every total stays below
  \<open>2^64\<close> and the 64-bit accumulators hold the true sums.\<close>

lemma unat_add_ucast:
  fixes a :: "64 word" and x :: "32 word"
  assumes "unat a + unat x < 2 ^ 64"
  shows "unat (a + ucast x) = unat a + unat x"
proof -
  have "unat x < 2 ^ 32"
    using unsigned_less [of x] by simp
  then have "unat x < 2 ^ 64"
    by simp
  then have u: "unat (ucast x :: 64 word) = unat x"
    by (simp add: unsigned_ucast_eq take_bit_nat_eq_self)
  with assms have "unat a + unat (ucast x :: 64 word) < 2 ^ LENGTH(64)"
    by simp
  then have "unat (a + ucast x) = unat a + unat (ucast x :: 64 word)"
    by (simp only: unat_add_lem)
  with u show ?thesis by simp
qed

lemma length_distinct_keys:
  fixes kvs :: "(FlowId \<times> 'a) list"
  assumes "distinct (map fst kvs)"
  shows "length kvs \<le> 2 ^ 32"
proof -
  have "length kvs = card (set (map fst kvs))"
    using assms distinct_card [of "map fst kvs"] by simp
  also have "\<dots> \<le> card (UNIV :: 32 word set)"
    by (rule card_mono) simp_all
  also have "\<dots> = 2 ^ 32"
    by (simp add: card_word)
  finally show ?thesis .
qed

lemma sum_list_word32_bound:
  fixes f :: "'a \<Rightarrow> 32 word"
  shows "sum_list (map (\<lambda>x. unat (f x)) xs) \<le> length xs * (2 ^ 32 - 1)"
proof (induction xs)
  case Nil
  show ?case by simp
next
  case (Cons x xs)
  have "unat (f x) < 2 ^ 32"
    using unsigned_less [of "f x"] by simp
  with Cons show ?case by simp
qed

lemma counter_sum_fits:
  fixes f :: "FlowStats \<Rightarrow> 32 word" and kvs :: "(FlowId \<times> FlowStats) list"
  assumes "distinct (map fst kvs)"
  shows "sum_list (map (\<lambda>kv. unat (f (snd kv))) kvs) < (2::nat) ^ 64"
proof -
  have "sum_list (map (\<lambda>kv. unat (f (snd kv))) kvs) \<le> length kvs * (2 ^ 32 - 1)"
    by (rule sum_list_word32_bound [of "\<lambda>kv. f (snd kv)"])
  also have "\<dots> \<le> 2 ^ 32 * (2 ^ 32 - 1)"
    using length_distinct_keys [OF assms] by simp
  also have "\<dots> < (2::nat) ^ 64"
    by simp
  finally show ?thesis .
qed

lemma accumulate_rxTotal:
  "unat (rxTotal c) + sum_rx kvs < 2 ^ 64 \<Longrightarrow>
   unat (rxTotal (accumulate c kvs)) = unat (rxTotal c) + sum_rx kvs"
proof (induction kvs arbitrary: c)
  case Nil
  then show ?case by (simp add: sum_rx_def)
next
  case (Cons kv kvs)
  have step: "unat (rxTotal (addFlow c (snd kv))) = unat (rxTotal c) + unat (rxPackets (snd kv))"
    using Cons.prems by (simp add: addFlow_def sum_rx_def unat_add_ucast)
  with Cons.prems have "unat (rxTotal (addFlow c (snd kv))) + sum_rx kvs < 2 ^ 64"
    by (simp add: sum_rx_def)
  from Cons.IH [OF this] step show ?case
    by (simp add: sum_rx_def)
qed

lemma accumulate_txTotal:
  "unat (txTotal c) + sum_tx kvs < 2 ^ 64 \<Longrightarrow>
   unat (txTotal (accumulate c kvs)) = unat (txTotal c) + sum_tx kvs"
proof (induction kvs arbitrary: c)
  case Nil
  then show ?case by (simp add: sum_tx_def)
next
  case (Cons kv kvs)
  have step: "unat (txTotal (addFlow c (snd kv))) = unat (txTotal c) + unat (txPackets (snd kv))"
    using Cons.prems by (simp add: addFlow_def sum_tx_def unat_add_ucast)
  with Cons.prems have "unat (txTotal (addFlow c (snd kv))) + sum_tx kvs < 2 ^ 64"
    by (simp add: sum_tx_def)
  from Cons.IH [OF this] step show ?case
    by (simp add: sum_tx_def)
qed

lemma accumulate_lostTotal:
  "unat (lostTotal c) + sum_lost kvs < 2 ^ 64 \<Longrightarrow>
   unat (lostTotal (accumulate c kvs)) = unat (lostTotal c) + sum_lost kvs"
proof (induction kvs arbitrary: c)
  case Nil
  then show ?case by (simp add: sum_lost_def)
next
  case (Cons kv kvs)
  have step:
    "unat (lostTotal (addFlow c (snd kv))) = unat (lostTotal c) + unat (lostPackets (snd kv))"
    using Cons.prems by (simp add: addFlow_def sum_lost_def unat_add_ucast)
  with Cons.prems have "unat (lostTotal (addFlow c (snd kv))) + sum_lost kvs < 2 ^ 64"
    by (simp add: sum_lost_def)
  from Cons.IH [OF this] step show ?case
    by (simp add: sum_lost_def)
qed

lemma totals_exact:
  assumes "distinct (map fst kvs)"
  shows "unat (rxTotal (accumulate initCounters kvs)) = sum_rx kvs"
    and "unat (txTotal (accumulate initCounters kvs)) = sum_tx kvs"
    and "unat (lostTotal (accumulate initCounters kvs)) = sum_lost kvs"
proof -
  have "sum_rx kvs < 2 ^ 64"
    unfolding sum_rx_def using assms by (rule counter_sum_fits)
  then show "unat (rxTotal (accumulate initCounters kvs)) = sum_rx kvs"
    using accumulate_rxTotal [of initCounters kvs] by (simp add: initCounters_def)
  have "sum_tx kvs < 2 ^ 64"
    unfolding sum_tx_def using assms by (rule counter_sum_fits)
  then show "unat (txTotal (accumulate initCounters kvs)) = sum_tx kvs"
    using accumulate_txTotal [of initCounters kvs] by (simp add: initCounters_def)
  have "sum_lost kvs < 2 ^ 64"
    unfolding sum_lost_def using assms by (rule counter_sum_fits)
  then show "unat (lostTotal (accumulate initCounters kvs)) = sum_lost kvs"
    using accumulate_lostTotal [of initCounters kvs] by (simp add: initCounters_def)
qed


lemma word_pos_iff_unat: "0 < w \<longleftrightarrow> unat w \<noteq> 0" for w :: "64 word"
  by (simp add: word_greater_zero_iff unat_eq_0)

lemma distance_scenario: "distance (scenario eng n d) = d"
  by (simp add: scenario_def metrics_def Let_def)

subsection \<open>The totals as sums of machine words\<close>

lemma accumulate_word_totals:
  "rxTotal (accumulate c kvs) = rxTotal c + sum_list (map (\<lambda>kv. ucast (rxPackets (snd kv))) kvs) \<and>
   txTotal (accumulate c kvs) = txTotal c + sum_list (map (\<lambda>kv. ucast (txPackets (snd kv))) kvs) \<and>
   lostTotal (accumulate c kvs) =
     lostTotal c + sum_list (map (\<lambda>kv. ucast (lostPackets (snd kv))) kvs)"
  by (induction kvs arbitrary: c) (simp_all add: addFlow_def add.assoc)

lemma sum_list_reordered:
  fixes f :: "'a \<Rightarrow> 'b :: comm_monoid_add"
  assumes "mset xs = mset ys"
  shows "sum_list (map f xs) = sum_list (map f ys)"
proof -
  have "sum_list (map f xs) = sum_mset (image_mset f (mset xs))"
    by (simp only: mset_map [symmetric] sum_mset_sum_list)
  also have "\<dots> = sum_mset (image_mset f (mset ys))"
    by (simp only: assms)
  also have "\<dots> = sum_list (map f ys)"
    by (simp only: mset_map [symmetric] sum_mset_sum_list)
  finally show ?thesis .
qed

subsection \<open>Decimal digits\<close>

lemma digit_cases:
  assumes "m < (10::nat)"
  obtains "m = 0" | "m = 1" | "m = 2" | "m = 3" | "m = 4" | "m = 5" | "m = 6" | "m = 7" | "m = 8" | "m = 9"
  using assms by atomize_elim arith

lemma digit_val_digit_char: "digit_val (digit_char n) = n mod 10"
proof -
  have "n mod 10 < 10" by simp
  then show ?thesis
    unfolding digit_char_def
    by (cases "n mod 10" rule: digit_cases) (simp_all add: digit_val_def)
qed

lemma digit_char_in: "digit_char n \<in> set ''0123456789''"
proof -
  have "n mod 10 < length ''0123456789''" by simp
  then show ?thesis
    unfolding digit_char_def by (rule nth_mem)
qed

lemma dec_digits_small: "n < 10 \<Longrightarrow> dec_digits n = [digit_char n]"
  by (simp add: dec_digits.simps)

lemma dec_digits_large:
  "\<not> n < 10 \<Longrightarrow> dec_digits n = dec_digits (n div 10) @ [digit_char (n mod 10)]"
  by (subst dec_digits.simps) simp

lemma dec_digits_chars: "set (dec_digits n) \<subseteq> set ''0123456789''"
proof (induction n rule: dec_digits.induct)
  case (1 n)
  show ?case
  proof (cases "n < 10")
    case True
    then have "dec_digits n = [digit_char n]"
      by (rule dec_digits_small)
    then show ?thesis
      using digit_char_in [of n] by simp
  next
    case False
    with 1 have "set (dec_digits (n div 10)) \<subseteq> set ''0123456789''"
      by simp
    moreover have "dec_digits n = dec_digits (n div 10) @ [digit_char (n mod 10)]"
      using False by (rule dec_digits_large)
    ultimately show ?thesis
      using digit_char_in [of "n mod 10"] by simp
  qed
qed

lemma dec_digits_nonempty: "dec_digits n \<noteq> []"
  by (cases "n < 10") (simp_all add: dec_digits_small dec_digits_large)

lemma read_digits_snoc: "read_digits (s @ [c]) = 10 * read_digits s + digit_val c"
  by (simp add: read_digits_def)

lemma read_digits_dec_digits: "read_digits (dec_digits n) = n"
proof (induction n rule: dec_digits.induct)
  case (1 n)
  show ?case
  proof (cases "n < 10")
    case True
    then show ?thesis
      by (simp add: dec_digits_small read_digits_def digit_val_digit_char)
  next
    case False
    with 1 have "read_digits (dec_digits (n div 10)) = n div 10"
      by simp
    with False show ?thesis
      by (simp add: dec_digits_large read_digits_snoc digit_val_digit_char)
  qed
qed

lemma digits_plain: "set ''0123456789'' \<subseteq> set ''-.0123456789''"
  by simp

lemma dec_digits_plain: "set (dec_digits n) \<subseteq> set ''-.0123456789''"
  using dec_digits_chars digits_plain by (rule subset_trans)

lemma digit_char_plain: "digit_char n \<in> set ''-.0123456789''"
  using digit_char_in digits_plain by (rule subsetD [rotated])

lemma point_not_in_dec_digits: "CHR ''.'' \<notin> set (dec_digits n)"
proof
  assume "CHR ''.'' \<in> set (dec_digits n)"
  then have "CHR ''.'' \<in> set ''0123456789''"
    using dec_digits_chars by (rule subsetD [rotated])
  then show False by simp
qed

lemma minus_not_in_dec_digits: "CHR ''-'' \<notin> set (dec_digits n)"
proof
  assume "CHR ''-'' \<in> set (dec_digits n)"
  then have "CHR ''-'' \<in> set ''0123456789''"
    using dec_digits_chars by (rule subsetD [rotated])
  then show False by simp
qed

subsection \<open>Rounding to hundredths\<close>

lemma hundredths_error: "\<bar>real (hundredths x) - \<bar>x\<bar> * 100\<bar> \<le> 1 / 2"
proof -
  have "0 \<le> rint (\<bar>x\<bar> * 100)"
    by (rule rint_nonneg) simp
  then have "real (hundredths x) = real_of_int (rint (\<bar>x\<bar> * 100))"
    by (simp add: hundredths_def)
  then show ?thesis
    using rint_error [of "\<bar>x\<bar> * 100"] by simp
qed

lemma hundredths_split:
  "real (n div 100) + real (10 * (n div 10 mod 10) + n mod 10) / 100 = real n / 100"
proof -
  have "n mod (10 * 10) = 10 * (n div 10 mod 10) + n mod 10"
    by (rule mod_mult2_eq)
  then have m: "real (10 * (n div 10 mod 10) + n mod 10) = real (n mod 100)"
    by simp
  have "real n = real (100 * (n div 100) + n mod 100)"
    by simp
  also have "\<dots> = 100 * real (n div 100) + real (n mod 100)"
    by (simp only: of_nat_add of_nat_mult of_nat_numeral)
  finally have "real n / 100 = real (n div 100) + real (n mod 100) / 100"
    by simp
  with m show ?thesis
    by simp
qed

subsection \<open>The printed number\<close>

lemma fixed2_unfold:
  "fixed2 x = (if x < 0 then ''-'' else '''') @ dec_digits (hundredths x div 100) @
     CHR ''.'' # [digit_char (hundredths x div 10), digit_char (hundredths x)]"
  by (simp add: fixed2_def Let_def)

lemma fixed2_chars: "set (fixed2 x) \<subseteq> set ''-.0123456789''"
proof -
  have "set (if x < 0 then ''-'' else '''') \<subseteq> set ''-.0123456789''"
    by (cases "x < 0") simp_all
  moreover have "set [CHR ''.'', digit_char (hundredths x div 10), digit_char (hundredths x)]
        \<subseteq> set ''-.0123456789''"
    using digit_char_plain [of "hundredths x div 10"] digit_char_plain [of "hundredths x"]
    by (simp only: set_simps insert_subset empty_subsetI) simp
  ultimately show ?thesis
    using dec_digits_plain [of "hundredths x div 100"]
    by (simp only: fixed2_unfold set_append Un_subset_iff)
qed

lemma fixed2_nonempty: "fixed2 x \<noteq> []"
  by (simp add: fixed2_unfold)

lemma fixed2_zero: "fixed2 0 = ''0.00''"
  by (simp add: fixed2_def hundredths_def rint_def digit_char_def dec_digits_small)

lemma fixed2_distances:
  "map fixed2 distances = [''5.00'', ''10.00'', ''20.00'', ''35.00'', ''50.00'']"
  by (simp add: distances_def fixed2_def hundredths_def rint_def digit_char_def
      dec_digits_small dec_digits_large)

lemma letter_d_not_in_fixed2: "CHR ''d'' \<notin> set (fixed2 x)"
proof
  assume "CHR ''d'' \<in> set (fixed2 x)"
  then have "CHR ''d'' \<in> set ''-.0123456789''"
    using fixed2_chars by (rule subsetD [rotated])
  then show False by simp
qed

lemma sign_digits_no_point:
  "c \<in> set ((if x < 0 then ''-'' else '''') @ dec_digits n) \<Longrightarrow> c \<noteq> CHR ''.''"
  using point_not_in_dec_digits [of n] by (cases "x < 0") auto

lemma fraction_digits_fixed2:
  "fraction_digits (fixed2 x) = [digit_char (hundredths x div 10), digit_char (hundredths x)]"
proof -
  have "dropWhile (\<lambda>c. c \<noteq> CHR ''.'')
               (((if x < 0 then ''-'' else '''') @ dec_digits (hundredths x div 100)) @
                CHR ''.'' # [digit_char (hundredths x div 10), digit_char (hundredths x)]) =
             dropWhile (\<lambda>c. c \<noteq> CHR ''.'')
               (CHR ''.'' # [digit_char (hundredths x div 10), digit_char (hundredths x)])"
    by (rule dropWhile_append2) (rule sign_digits_no_point)
  then show ?thesis
    by (simp add: fraction_digits_def fixed2_unfold)
qed

lemma read_unsigned_digits:
  "read_unsigned (dec_digits a @ CHR ''.'' # [digit_char b, digit_char c]) =
     real a + real (10 * (b mod 10) + c mod 10) / 100"
proof -
  have no_point: "\<And>ch. ch \<in> set (dec_digits a) \<Longrightarrow> ch \<noteq> CHR ''.''"
    using point_not_in_dec_digits [of a] by blast
  have t: "takeWhile (\<lambda>ch. ch \<noteq> CHR ''.'') (dec_digits a @ CHR ''.'' # [digit_char b, digit_char c]) =
           dec_digits a"
    using takeWhile_append2 [of "dec_digits a" "\<lambda>ch. ch \<noteq> CHR ''.''", OF no_point] by simp
  have d: "dropWhile (\<lambda>ch. ch \<noteq> CHR ''.'') (dec_digits a @ CHR ''.'' # [digit_char b, digit_char c]) =
           CHR ''.'' # [digit_char b, digit_char c]"
    using dropWhile_append2 [of "dec_digits a" "\<lambda>ch. ch \<noteq> CHR ''.''", OF no_point] by simp
  have "read_digits [digit_char b, digit_char c] = 10 * (b mod 10) + c mod 10"
    by (simp add: read_digits_def digit_val_digit_char)
  then show ?thesis
    by (simp add: read_unsigned_def Let_def t d read_digits_dec_digits)
qed

lemma read_unsigned_magnitude:
  "read_unsigned (dec_digits (hundredths x div 100) @
     CHR ''.'' # [digit_char (hundredths x div 10), digit_char (hundredths x)]) =
   real (hundredths x) / 100"
  by (simp only: read_unsigned_digits hundredths_split)

lemma fixed_value_fixed2:
  "fixed_value (fixed2 x) = (if x < 0 then - (real (hundredths x) / 100) else real (hundredths x) / 100)"
proof (cases "x < 0")
  case True
  then show ?thesis
    by (simp add: fixed2_unfold fixed_value_def read_unsigned_magnitude)
next
  case False
  obtain c cs where ds: "dec_digits (hundredths x div 100) = c # cs"
    using dec_digits_nonempty [of "hundredths x div 100"]
    by (cases "dec_digits (hundredths x div 100)") simp_all
  have "c \<noteq> CHR ''-''"
    using minus_not_in_dec_digits [of "hundredths x div 100"] by (auto simp: ds)
  with False ds have "fixed_value (fixed2 x) =
      read_unsigned (c # cs @
        CHR ''.'' # [digit_char (hundredths x div 10), digit_char (hundredths x)])"
    by (simp add: fixed2_unfold fixed_value_def)
  also have "\<dots> = real (hundredths x) / 100"
    using read_unsigned_magnitude [of x] by (simp add: ds)
  finally show ?thesis
    using False by simp
qed

lemma fixed2_accurate: "\<bar>fixed_value (fixed2 x) - x\<bar> \<le> 1 / 200"
proof (cases "x < 0")
  case True
  with hundredths_error [of x] show ?thesis
    by (simp add: fixed_value_fixed2 abs_if split: if_splits)
next
  case False
  with hundredths_error [of x] show ?thesis
    by (simp add: fixed_value_fixed2 abs_if split: if_splits)
qed

lemma nan_plain: "set ''nan'' \<subseteq> set ''-.0123456789na''"
  by simp

lemma plain_extend: "set ''-.0123456789'' \<subseteq> set ''-.0123456789na''"
  by simp

lemma put_double_chars: "set (put_double v) \<subseteq> set ''-.0123456789na''"
proof (cases v)
  case None
  then show ?thesis
    using nan_plain by (simp only: put_double_def option.case)
next
  case (Some x)
  then show ?thesis
    using subset_trans [OF fixed2_chars plain_extend, of x] by (simp only: put_double_def option.case)
qed

lemma comma_not_in_put_double: "CHR '','' \<notin> set (put_double v)"
proof
  assume "CHR '','' \<in> set (put_double v)"
  then have "CHR '','' \<in> set ''-.0123456789na''"
    using put_double_chars by (rule subsetD [rotated])
  then show False by simp
qed

lemma newline_not_in_put_double: "CHR 0x0A \<notin> set (put_double v)"
proof
  assume "CHR 0x0A \<in> set (put_double v)"
  then have "CHR 0x0A \<in> set ''-.0123456789na''"
    using put_double_chars by (rule subsetD [rotated])
  then show False by simp
qed

lemma put_double_nonempty: "put_double v \<noteq> []"
  by (cases v) (simp_all add: put_double_def fixed2_nonempty)

lemma put_double_Some: "put_double (Some x) = fixed2 x"
  by (simp add: put_double_def)

subsection \<open>Lines and fields\<close>

lemma pieces_terminated:
  "sep \<notin> set l \<Longrightarrow> pieces sep cur (l @ sep # rest) = (rev cur @ l) # pieces sep [] rest"
  by (induction l arbitrary: cur) auto

lemma pieces_unterminated:
  "sep \<notin> set l \<Longrightarrow> pieces sep cur l = (if rev cur @ l = [] then [] else [rev cur @ l])"
  by (induction l arbitrary: cur) auto

lemma pieces_rows:
  "(\<And>r. r \<in> set rs \<Longrightarrow> sep \<notin> set r) \<Longrightarrow>
   pieces sep [] (concat (map (\<lambda>r. r @ [sep]) rs) @ rest) = rs @ pieces sep [] rest"
proof (induction rs)
  case Nil
  show ?case by simp
next
  case (Cons r rs)
  have "sep \<notin> set r"
    using Cons.prems by simp
  then have "pieces sep [] (r @ sep # (concat (map (\<lambda>r. r @ [sep]) rs) @ rest)) =
        r # pieces sep [] (concat (map (\<lambda>r. r @ [sep]) rs) @ rest)"
    using pieces_terminated [of sep r "[]"] by simp
  moreover have "pieces sep [] (concat (map (\<lambda>r. r @ [sep]) rs) @ rest) = rs @ pieces sep [] rest"
    using Cons.IH Cons.prems by simp
  ultimately show ?case by simp
qed

lemma csv_row_text:
  "csv_row r = (fixed2 (distance r) @ '','' @ put_double (throughputMbps r) @ '','' @
     put_double (avgDelayMs r) @ '','' @ put_double (lossPct r)) @ [CHR 0x0A]"
  by (simp add: csv_row_def)

lemma row_text_eq:
  "row_text r = fixed2 (distance r) @ '','' @ put_double (throughputMbps r) @ '','' @
     put_double (avgDelayMs r) @ '','' @ put_double (lossPct r)"
  unfolding row_text_def by (subst csv_row_text) (rule butlast_snoc)

lemma csv_row_terminated: "csv_row r = row_text r @ [CHR 0x0A]"
  by (simp only: row_text_eq csv_row_text)

lemma newline_not_in_row_text: "CHR 0x0A \<notin> set (row_text r)"
  using newline_not_in_put_double [of "Some (distance r)"]
    newline_not_in_put_double [of "throughputMbps r"]
    newline_not_in_put_double [of "avgDelayMs r"]
    newline_not_in_put_double [of "lossPct r"]
  by (simp add: row_text_eq put_double_Some)

lemma fields_row_text:
  "fields (row_text r) =
     [fixed2 (distance r), put_double (throughputMbps r), put_double (avgDelayMs r),
      put_double (lossPct r)]"
proof -
  have c1: "CHR '','' \<notin> set (fixed2 (distance r))"
    using comma_not_in_put_double [of "Some (distance r)"] by (simp add: put_double_Some)
  have "fields (row_text r) =
      pieces (CHR '','') [] (fixed2 (distance r) @ CHR '','' #
        (put_double (throughputMbps r) @ CHR '','' #
          (put_double (avgDelayMs r) @ CHR '','' # put_double (lossPct r))))"
    by (simp add: fields_def row_text_eq)
  also have "\<dots> = fixed2 (distance r) # pieces (CHR '','') []
        (put_double (throughputMbps r) @ CHR '','' #
          (put_double (avgDelayMs r) @ CHR '','' # put_double (lossPct r)))"
    using pieces_terminated [OF c1, of "[]"] by simp
  also have "\<dots> = fixed2 (distance r) # put_double (throughputMbps r) # pieces (CHR '','') []
        (put_double (avgDelayMs r) @ CHR '','' # put_double (lossPct r))"
    using pieces_terminated [of "CHR '',''" "put_double (throughputMbps r)" "[]",
        OF comma_not_in_put_double] by simp
  also have "\<dots> = fixed2 (distance r) # put_double (throughputMbps r) #
        put_double (avgDelayMs r) # pieces (CHR '','') [] (put_double (lossPct r))"
    using pieces_terminated [of "CHR '',''" "put_double (avgDelayMs r)" "[]",
        OF comma_not_in_put_double] by simp
  also have "\<dots> = [fixed2 (distance r), put_double (throughputMbps r),
        put_double (avgDelayMs r), put_double (lossPct r)]"
    using pieces_unterminated [of "CHR '',''" "put_double (lossPct r)" "[]",
        OF comma_not_in_put_double]
    by (simp add: put_double_nonempty)
  finally show ?thesis .
qed

lemma row_text_not_header: "row_text r \<noteq> header_line"
proof
  assume eq: "row_text r = header_line"
  obtain c cs where f: "fixed2 (distance r) = c # cs"
    using fixed2_nonempty [of "distance r"] by (cases "fixed2 (distance r)") simp_all
  then have "c \<noteq> CHR ''d''"
    using letter_d_not_in_fixed2 [of "distance r"] by auto
  moreover have "hd (row_text r) = c"
    by (simp add: row_text_eq f)
  moreover have "hd header_line = CHR ''d''"
    by (simp add: header_line_def)
  ultimately show False
    using eq by simp
qed

lemma newline_not_in_header_line: "CHR 0x0A \<notin> set header_line"
  by (simp add: header_line_def)

subsection \<open>The content of the store after a campaign\<close>

lemma foldl_run_scenario:
  "foldl (run_scenario eng n) (Some c) ds =
     Some (c @ concat (map (\<lambda>d. csv_row (scenario eng n d)) ds))"
  by (induction ds arbitrary: c) (simp_all add: run_scenario_def append_csv_def)

lemma campaign_content:
  "campaign eng n ds csv =
     Some ((case csv of None \<Rightarrow> csvHeader | Some c \<Rightarrow> c) @
           concat (map (\<lambda>d. csv_row (scenario eng n d)) ds))"
  by (cases csv) (simp_all add: campaign_def WriteCsvHeaderIfNeeded_def foldl_run_scenario)

lemma rows_as_lines:
  "concat (map (\<lambda>d. csv_row (scenario eng n d)) ds) =
     concat (map (\<lambda>r. r @ [CHR 0x0A]) (map (\<lambda>d. row_text (scenario eng n d)) ds))"
  by (induction ds) (simp_all add: csv_row_terminated)

lemma pieces_row_texts:
  "pieces (CHR 0x0A) [] (concat (map (\<lambda>d. csv_row (scenario eng n d)) ds) @ rest) =
     map (\<lambda>d. row_text (scenario eng n d)) ds @ pieces (CHR 0x0A) [] rest"
proof -
  have nl: "\<And>r. r \<in> set (map (\<lambda>d. row_text (scenario eng n d)) ds) \<Longrightarrow> CHR 0x0A \<notin> set r"
    using newline_not_in_row_text by auto
  show ?thesis
    unfolding rows_as_lines by (rule pieces_rows) (rule nl)
qed

lemma csv_lines_fresh:
  "csv_lines (campaign eng n ds None) = header_line # map (\<lambda>d. row_text (scenario eng n d)) ds"
proof -
  have "csv_lines (campaign eng n ds None) =
      pieces (CHR 0x0A) [] (header_line @ CHR 0x0A #
        (concat (map (\<lambda>d. csv_row (scenario eng n d)) ds) @ []))"
    by (simp add: campaign_content csv_lines_def csvHeader_def)
  also have "\<dots> = header_line #
      pieces (CHR 0x0A) [] (concat (map (\<lambda>d. csv_row (scenario eng n d)) ds) @ [])"
    using pieces_terminated [OF newline_not_in_header_line, of "[]"] by simp
  also have "\<dots> = header_line # map (\<lambda>d. row_text (scenario eng n d)) ds"
    by (simp only: pieces_row_texts) simp
  finally show ?thesis .
qed

lemma csv_lines_twice:
  "csv_lines (campaign e2 n ds (campaign e1 n ds None)) =
     header_line # map (\<lambda>d. row_text (scenario e1 n d)) ds @
       map (\<lambda>d. row_text (scenario e2 n d)) ds"
proof -
  have "csv_lines (campaign e2 n ds (campaign e1 n ds None)) =
      pieces (CHR 0x0A) [] (header_line @ CHR 0x0A #
        (concat (map (\<lambda>d. csv_row (scenario e1 n d)) ds) @
         (concat (map (\<lambda>d. csv_row (scenario e2 n d)) ds) @ [])))"
    by (simp add: campaign_content csv_lines_def csvHeader_def)
  also have "\<dots> = header_line #
      pieces (CHR 0x0A) [] (concat (map (\<lambda>d. csv_row (scenario e1 n d)) ds) @
         (concat (map (\<lambda>d. csv_row (scenario e2 n d)) ds) @ []))"
    using pieces_terminated [OF newline_not_in_header_line, of "[]"] by simp
  also have "\<dots> = header_line # map (\<lambda>d. row_text (scenario e1 n d)) ds @
       map (\<lambda>d. row_text (scenario e2 n d)) ds"
    by (simp only: pieces_row_texts) simp
  finally show ?thesis .
qed

lemma filter_row_texts_header:
  "filter (\<lambda>l. l = header_line) (map (\<lambda>d. row_text (scenario eng n d)) ds) = []"
  by (induction ds) (simp_all add: row_text_not_header)

lemma filter_row_texts_data:
  "filter (\<lambda>l. l \<noteq> header_line) (map (\<lambda>d. row_text (scenario eng n d)) ds) =
     map (\<lambda>d. row_text (scenario eng n d)) ds"
  by (induction ds) (simp_all add: row_text_not_header)

lemma data_rows_fresh:
  "data_rows (campaign eng n ds None) = map (\<lambda>d. row_text (scenario eng n d)) ds"
  by (simp add: data_rows_def csv_lines_fresh filter_row_texts_data)

lemma first_fields:
  "map (\<lambda>l. hd (fields l)) (map (\<lambda>d. row_text (scenario eng n d)) ds) = map fixed2 ds"
  by (induction ds) (simp_all add: fields_row_text distance_scenario)

subsection \<open>The metrics as rounded formulas\<close>

text \<open>The divisor of the throughput is exactly \<open>9000000\<close>; each metric of the program
  is the formula of the specification with every operation rounded, and the guards keep
  every division away from zero.\<close>

lemma uint_as_unat: "real_of_int (uint w) = real (unat w)"
  by simp

lemma of_u64_unat: "of_u64 w = fl (real (unat w))"
  by (simp only: of_u64_def uint_as_unat)

lemma of_u64_zero: "of_u64 0 = 0"
  by (simp add: of_u64_def fl_zero)

lemma of_u64_nonneg: "0 \<le> of_u64 w"
  unfolding of_u64_unat by (rule fl_nonneg) (rule of_nat_0_le_iff)

lemma of_u64_pos: "0 < w \<Longrightarrow> 0 < of_u64 w"
proof -
  assume "0 < w"
  then have "unat w \<noteq> 0"
    by (simp add: word_pos_iff_unat)
  then have "0 < real (unat w)"
    by (simp only: of_nat_0_less_iff)
  then show ?thesis
    unfolding of_u64_unat by (rule fl_pos)
qed

lemma duration_value: "duration = 9"
proof -
  have "fl (real_of_int 9) = real_of_int 9"
    by (rule fl_int) simp
  then show ?thesis
    by (simp add: duration_def dsub_def appStart_def appStop_def)
qed

lemma divisor_value: "dmul duration 1000000 = (appStop - appStart) * 1000000"
proof -
  have "fl (real_of_int 9000000) = real_of_int 9000000"
    by (rule fl_int) simp
  then show ?thesis
    by (simp add: duration_value dmul_def appStart_def appStop_def)
qed

lemma divisor_nonzero: "(appStop - appStart) * 1000000 \<noteq> 0"
  by (simp add: appStart_def appStop_def)

lemma throughput_value: "throughput rx = Some (rounded_throughput rx)"
proof -
  have "throughput rx = ddiv (fl (fl (real (unat rx)) * 8)) ((appStop - appStart) * 1000000)"
    by (simp only: throughput_def divisor_value of_u64_unat) (simp only: dmul_def)
  then show ?thesis
    using divisor_nonzero by (simp only: ddiv_def rounded_throughput_def if_False)
qed

lemma avgDelay_value:
  "avgDelay c =
     Some (if unat (rxTotal c) = 0 then 0
           else fl (fl (sumDelaySec c / fl (real (unat (rxTotal c)))) * 1000))"
proof (cases "unat (rxTotal c) = 0")
  case True
  then show ?thesis by (simp add: avgDelay_def word_pos_iff_unat)
next
  case False
  then have pos: "0 < rxTotal c"
    by (simp add: word_pos_iff_unat)
  then have "of_u64 (rxTotal c) \<noteq> 0"
    using of_u64_pos [OF pos] by simp
  with False pos show ?thesis
    by (simp only: avgDelay_def ddiv_def dmul_def of_u64_unat if_True if_False option.map)
qed

lemma loss_value:
  "loss c =
     Some (if unat (txTotal c) = 0 then 0
           else fl (fl (100 * fl (real (unat (lostTotal c)))) / fl (real (unat (txTotal c)))))"
proof (cases "unat (txTotal c) = 0")
  case True
  then show ?thesis by (simp add: loss_def word_pos_iff_unat)
next
  case False
  then have pos: "0 < txTotal c"
    by (simp add: word_pos_iff_unat)
  then have "of_u64 (txTotal c) \<noteq> 0"
    using of_u64_pos [OF pos] by simp
  with False pos show ?thesis
    by (simp only: loss_def ddiv_def dmul_def of_u64_unat if_True if_False)
qed

lemma metrics_finite:
  "\<exists>t a l. throughputMbps (metrics d out) = Some t \<and> avgDelayMs (metrics d out) = Some a \<and>
     lossPct (metrics d out) = Some l"
  by (simp add: metrics_def Let_def throughput_value avgDelay_value loss_value)

lemma accumulate_sumDelaySec:
  "sumDelaySec (accumulate c kvs) =
     foldl (\<lambda>s kv. fl (s + fl (seconds (delaySum (snd kv))))) (sumDelaySec c) kvs"
  by (induction kvs arbitrary: c)
    (simp_all add: addFlow_def dadd_def GetSeconds_def seconds_def)

lemma sumDelaySec_init:
  "sumDelaySec (accumulate initCounters kvs) = sum_delay kvs"
  by (simp add: accumulate_sumDelaySec initCounters_def sum_delay_def)

lemma seconds_nonneg: "0 \<le> sint t \<Longrightarrow> 0 \<le> seconds t"
  by (simp add: seconds_def del: of_int_sint)

lemma foldl_delay_nonneg:
  "nonneg_delays kvs \<Longrightarrow> 0 \<le> s \<Longrightarrow>
   0 \<le> foldl (\<lambda>s kv. fl (s + fl (seconds (delaySum (snd kv))))) s kvs"
proof (induction kvs arbitrary: s)
  case Nil
  then show ?case by simp
next
  case (Cons kv kvs)
  have "0 \<le> fl (seconds (delaySum (snd kv)))"
    using Cons.prems(1) by (intro fl_nonneg seconds_nonneg) (simp add: nonneg_delays_def)
  then have "0 \<le> fl (s + fl (seconds (delaySum (snd kv))))"
    using Cons.prems(2) by (intro fl_nonneg) simp
  moreover have "nonneg_delays kvs"
    using Cons.prems(1) by (simp add: nonneg_delays_def)
  ultimately show ?case
    using Cons.IH by simp
qed

lemma sum_delay_nonneg: "nonneg_delays kvs \<Longrightarrow> 0 \<le> sum_delay kvs"
  unfolding sum_delay_def by (rule foldl_delay_nonneg) simp_all

subsection \<open>Rounding error of the throughput and of the loss\<close>

lemma roundoff_bounds: "0 < unit_roundoff" "unit_roundoff < 1"
  by (simp_all add: unit_roundoff_def)

lemma fl_le_rel:
  assumes "0 \<le> x" and "x \<le> b"
  shows "fl x \<le> b * (1 + unit_roundoff)"
proof -
  have "fl x \<le> x + x / 2 ^ 53"
    using fl_relative [of x] assms(1) by (simp add: abs_if split: if_splits)
  also have "\<dots> = x * (1 + unit_roundoff)"
    by (simp add: unit_roundoff_def algebra_simps)
  also have "\<dots> \<le> b * (1 + unit_roundoff)"
    using assms(2) roundoff_bounds by (intro mult_right_mono) simp_all
  finally show ?thesis .
qed

lemma fl_ge_rel:
  assumes "0 \<le> b" and "b \<le> x"
  shows "b * (1 - unit_roundoff) \<le> fl x"
proof -
  have x: "0 \<le> x" using assms by simp
  have "b * (1 - unit_roundoff) \<le> x * (1 - unit_roundoff)"
    using assms(2) roundoff_bounds by (intro mult_right_mono) simp_all
  also have "\<dots> = x - x / 2 ^ 53"
    by (simp add: unit_roundoff_def algebra_simps)
  also have "\<dots> \<le> fl x"
    using fl_relative [of x] x by (simp add: abs_if split: if_splits)
  finally show ?thesis .
qed

lemma rel_bound:
  fixes q v lo hi e :: real
  assumes "0 \<le> q" and "q * lo \<le> v" and "v \<le> q * hi" and "1 - e \<le> lo" and "hi \<le> 1 + e"
  shows "\<bar>v - q\<bar> \<le> q * e"
proof -
  have "q * (1 - e) \<le> q * lo"
    using assms(1,4) by (rule mult_left_mono [rotated])
  moreover have "q * hi \<le> q * (1 + e)"
    using assms(1,5) by (rule mult_left_mono [rotated])
  ultimately have "q * (1 - e) \<le> v" "v \<le> q * (1 + e)"
    using assms(2,3) by linarith+
  then show ?thesis
    by (simp add: algebra_simps abs_le_iff)
qed

lemma rounded_throughput_close:
  "\<bar>rounded_throughput rx - spec_throughput rx\<bar> \<le> spec_throughput rx / 2 ^ 51"
proof -
  define r where "r = real (unat rx)"
  define D where "D = (appStop - appStart) * 1000000"
  define u where "u = unit_roundoff"
  define q where "q = r * 8 / D"
  have r: "0 \<le> r" unfolding r_def by (rule of_nat_0_le_iff)
  have D: "0 < D" by (simp add: D_def appStart_def appStop_def)
  have u: "0 < u" "u < 1" using roundoff_bounds by (simp_all add: u_def)
  have q: "0 \<le> q" using r D by (simp add: q_def)
  have a1: "r * (1 - u) \<le> fl r" "fl r \<le> r * (1 + u)" "0 \<le> fl r"
    using fl_ge_rel [of r r] fl_le_rel [of r r] fl_nonneg [of r] r by (simp_all add: u_def)
  have lo1: "0 \<le> r * (1 - u) * 8" using r u by simp
  have a2: "r * (1 - u) * 8 * (1 - u) \<le> fl (fl r * 8)" "fl (fl r * 8) \<le> r * (1 + u) * 8 * (1 + u)"
      "0 \<le> fl (fl r * 8)"
    using fl_ge_rel [of "r * (1 - u) * 8" "fl r * 8"] fl_le_rel [of "fl r * 8" "r * (1 + u) * 8"]
      fl_nonneg [of "fl r * 8"] a1 lo1 by (simp_all add: u_def)
  have lo2: "0 \<le> r * (1 - u) * 8 * (1 - u) / D" using r u D by simp
  have d1: "r * (1 - u) * 8 * (1 - u) / D \<le> fl (fl r * 8) / D"
    using a2(1) D by (simp add: divide_right_mono)
  have d2: "fl (fl r * 8) / D \<le> r * (1 + u) * 8 * (1 + u) / D"
    using a2(2) D by (simp add: divide_right_mono)
  have d0: "0 \<le> fl (fl r * 8) / D" using a2(3) D by simp
  have a3: "r * (1 - u) * 8 * (1 - u) / D * (1 - u) \<le> fl (fl (fl r * 8) / D)"
      "fl (fl (fl r * 8) / D) \<le> r * (1 + u) * 8 * (1 + u) / D * (1 + u)"
    using fl_ge_rel [OF lo2 d1] fl_le_rel [OF d0 d2] by (simp_all add: u_def)
  have e1: "r * (1 - u) * 8 * (1 - u) / D * (1 - u) = q * ((1 - u) ^ 3)"
    by (simp add: q_def power3_eq_cube)
  have e2: "r * (1 + u) * 8 * (1 + u) / D * (1 + u) = q * ((1 + u) ^ 3)"
    by (simp add: q_def power3_eq_cube)
  have lo: "q * ((1 - u) ^ 3) \<le> fl (fl (fl r * 8) / D)"
    using a3(1) by (simp only: e1)
  have hi: "fl (fl (fl r * 8) / D) \<le> q * ((1 + u) ^ 3)"
    using a3(2) by (simp only: e2)
  have n1: "1 - 1 / 2 ^ 51 \<le> (1 - u) ^ 3"
    by (simp add: u_def unit_roundoff_def power3_eq_cube)
  have n2: "(1 + u) ^ 3 \<le> 1 + 1 / 2 ^ 51"
    by (simp add: u_def unit_roundoff_def power3_eq_cube)
  have "\<bar>fl (fl (fl r * 8) / D) - q\<bar> \<le> q * (1 / 2 ^ 51)"
    using q lo hi n1 n2 by (rule rel_bound)
  then show ?thesis
    unfolding rounded_throughput_def spec_throughput_def r_def D_def q_def by simp
qed

lemma rounded_quotient_close:
  fixes L T :: nat
  assumes "0 < T"
  shows "\<bar>fl (fl (100 * fl (real L)) / fl (real T)) - 100 * real L / real T\<bar>
           \<le> (100 * real L / real T) / 2 ^ 50"
proof -
  define u where "u = unit_roundoff"
  define q where "q = 100 * real L / real T"
  have u: "0 < u" "u < 1" using roundoff_bounds by (simp_all add: u_def)
  have L: "0 \<le> real L" by simp
  have T: "0 < real T" using assms by simp
  have q: "0 \<le> q" using T by (simp add: q_def)
  have l1: "real L * (1 - u) \<le> fl (real L)" "fl (real L) \<le> real L * (1 + u)" "0 \<le> fl (real L)"
    using fl_ge_rel [of "real L" "real L"] fl_le_rel [of "real L" "real L"] fl_nonneg [of "real L"]
    by (simp_all add: u_def)
  have lo1: "0 \<le> 100 * (real L * (1 - u))" using u by simp
  have p: "100 * (real L * (1 - u)) * (1 - u) \<le> fl (100 * fl (real L))"
      "fl (100 * fl (real L)) \<le> 100 * (real L * (1 + u)) * (1 + u)"
      "0 \<le> fl (100 * fl (real L))"
    using fl_ge_rel [of "100 * (real L * (1 - u))" "100 * fl (real L)"]
      fl_le_rel [of "100 * fl (real L)" "100 * (real L * (1 + u))"]
      fl_nonneg [of "100 * fl (real L)"] l1 lo1 by (simp_all add: u_def)
  have plo: "0 \<le> 100 * (real L * (1 - u)) * (1 - u)" using u by simp
  have phi: "0 \<le> 100 * (real L * (1 + u)) * (1 + u)" using u by simp
  have t1: "real T * (1 - u) \<le> fl (real T)" "fl (real T) \<le> real T * (1 + u)" "0 < fl (real T)"
    using fl_ge_rel [of "real T" "real T"] fl_le_rel [of "real T" "real T"] fl_pos [OF T] T
    by (simp_all add: u_def)
  have tlo: "0 < real T * (1 - u)" using T u by simp
  have d1: "100 * (real L * (1 - u)) * (1 - u) / (real T * (1 + u))
        \<le> fl (100 * fl (real L)) / fl (real T)"
    using p(3) p(1) t1(3) t1(2) by (rule frac_le)
  have d2: "fl (100 * fl (real L)) / fl (real T)
        \<le> 100 * (real L * (1 + u)) * (1 + u) / (real T * (1 - u))"
    using phi p(2) tlo t1(1) by (rule frac_le)
  have d0: "0 \<le> fl (100 * fl (real L)) / fl (real T)"
    using p(3) t1(3) by simp
  have dlo: "0 \<le> 100 * (real L * (1 - u)) * (1 - u) / (real T * (1 + u))"
    using plo T u by simp
  have v: "100 * (real L * (1 - u)) * (1 - u) / (real T * (1 + u)) * (1 - u)
        \<le> fl (fl (100 * fl (real L)) / fl (real T))"
      "fl (fl (100 * fl (real L)) / fl (real T))
        \<le> 100 * (real L * (1 + u)) * (1 + u) / (real T * (1 - u)) * (1 + u)"
    using fl_ge_rel [OF dlo d1] fl_le_rel [OF d0 d2] by (simp_all add: u_def)
  have e1: "100 * (real L * (1 - u)) * (1 - u) / (real T * (1 + u)) * (1 - u)
        = q * ((1 - u) ^ 3 / (1 + u))"
    by (simp add: q_def power3_eq_cube)
  have e2: "100 * (real L * (1 + u)) * (1 + u) / (real T * (1 - u)) * (1 + u)
        = q * ((1 + u) ^ 3 / (1 - u))"
    by (simp add: q_def power3_eq_cube)
  have lo: "q * ((1 - u) ^ 3 / (1 + u)) \<le> fl (fl (100 * fl (real L)) / fl (real T))"
    using v(1) by (simp only: e1)
  have hi: "fl (fl (100 * fl (real L)) / fl (real T)) \<le> q * ((1 + u) ^ 3 / (1 - u))"
    using v(2) by (simp only: e2)
  have n1: "1 - 1 / 2 ^ 50 \<le> (1 - u) ^ 3 / (1 + u)"
    by (simp add: u_def unit_roundoff_def power3_eq_cube)
  have n2: "(1 + u) ^ 3 / (1 - u) \<le> 1 + 1 / 2 ^ 50"
    by (simp add: u_def unit_roundoff_def power3_eq_cube)
  have "\<bar>fl (fl (100 * fl (real L)) / fl (real T)) - q\<bar> \<le> q * (1 / 2 ^ 50)"
    using q lo hi n1 n2 by (rule rel_bound)
  then show ?thesis
    unfolding q_def by simp
qed

lemma rounded_lossPercent_close:
  "\<bar>rounded_lossPercent kvs - spec_lossPercent kvs\<bar> \<le> spec_lossPercent kvs / 2 ^ 50"
proof (cases "sum_tx kvs = 0")
  case True
  then show ?thesis
    by (simp add: rounded_lossPercent_def spec_lossPercent_def)
next
  case False
  then have "0 < sum_tx kvs" by simp
  from rounded_quotient_close [OF this, of "sum_lost kvs"] False show ?thesis
    by (simp only: rounded_lossPercent_def spec_lossPercent_def if_False)
qed

subsection \<open>Rounding error of the average delay\<close>

lemma foldl_delay_upper:
  assumes "nonneg_delays kvs" and "0 \<le> s" and "0 \<le> B" and "1 \<le> m"
    and "s \<le> B * (1 + unit_roundoff) ^ m"
  shows "foldl (\<lambda>s kv. fl (s + fl (seconds (delaySum (snd kv))))) s kvs
           \<le> (B + spec_sum_delay kvs) * (1 + unit_roundoff) ^ (m + length kvs)"
  using assms
proof (induction kvs arbitrary: s B m)
  case Nil
  then show ?case by (simp add: spec_sum_delay_def)
next
  case (Cons kv kvs)
  define u where "u = unit_roundoff"
  define x where "x = seconds (delaySum (snd kv))"
  have u: "0 < u" using roundoff_bounds by (simp add: u_def)
  have x: "0 \<le> x"
    using Cons.prems(1) unfolding x_def by (intro seconds_nonneg) (simp add: nonneg_delays_def)
  have rest: "nonneg_delays kvs"
    using Cons.prems(1) by (simp add: nonneg_delays_def)
  have fx: "0 \<le> fl x" "fl x \<le> x * (1 + u)"
    using fl_nonneg [OF x] fl_le_rel [OF x order_refl] by (simp_all add: u_def)
  have "(1 + u) ^ 1 \<le> (1 + u) ^ m"
    using Cons.prems(4) u by (intro power_increasing) simp_all
  then have "x * (1 + u) \<le> x * (1 + u) ^ m"
    using x by (intro mult_left_mono) simp_all
  with fx(2) Cons.prems(5) have "s + fl x \<le> B * (1 + u) ^ m + x * (1 + u) ^ m"
    by (simp add: u_def)
  then have le: "s + fl x \<le> (B + x) * (1 + u) ^ m"
    by (simp add: algebra_simps)
  have ge: "0 \<le> s + fl x"
    using Cons.prems(2) fx(1) by simp
  have step: "fl (s + fl x) \<le> (B + x) * (1 + unit_roundoff) ^ Suc m"
    using fl_le_rel [OF ge le] by (simp add: u_def mult_ac)
  have "foldl (\<lambda>s kv. fl (s + fl (seconds (delaySum (snd kv))))) (fl (s + fl x)) kvs
          \<le> ((B + x) + spec_sum_delay kvs) * (1 + unit_roundoff) ^ (Suc m + length kvs)"
    using rest fl_nonneg [OF ge] _ _ step
  proof (rule Cons.IH)
    show "0 \<le> B + x" using Cons.prems(3) x by simp
    show "1 \<le> Suc m" by simp
  qed
  then show ?case
    by (simp add: x_def spec_sum_delay_def add.assoc)
qed

lemma foldl_delay_lower:
  assumes "nonneg_delays kvs" and "0 \<le> B" and "1 \<le> m"
    and "B * (1 - unit_roundoff) ^ m \<le> s"
  shows "(B + spec_sum_delay kvs) * (1 - unit_roundoff) ^ (m + length kvs)
           \<le> foldl (\<lambda>s kv. fl (s + fl (seconds (delaySum (snd kv))))) s kvs"
  using assms
proof (induction kvs arbitrary: s B m)
  case Nil
  then show ?case by (simp add: spec_sum_delay_def)
next
  case (Cons kv kvs)
  define u where "u = unit_roundoff"
  define x where "x = seconds (delaySum (snd kv))"
  have u: "0 < u" "u < 1" using roundoff_bounds by (simp_all add: u_def)
  have x: "0 \<le> x"
    using Cons.prems(1) unfolding x_def by (intro seconds_nonneg) (simp add: nonneg_delays_def)
  have rest: "nonneg_delays kvs"
    using Cons.prems(1) by (simp add: nonneg_delays_def)
  have fx: "x * (1 - u) \<le> fl x"
    using fl_ge_rel [OF x order_refl] by (simp add: u_def)
  have "(1 - u) ^ m \<le> (1 - u) ^ 1"
    using Cons.prems(3) u by (intro power_decreasing) simp_all
  then have "x * (1 - u) ^ m \<le> x * (1 - u)"
    using x by (intro mult_left_mono) simp_all
  with fx Cons.prems(4) have "B * (1 - u) ^ m + x * (1 - u) ^ m \<le> s + fl x"
    by (simp add: u_def)
  then have le: "(B + x) * (1 - u) ^ m \<le> s + fl x"
    by (simp add: algebra_simps)
  have ge: "0 \<le> (B + x) * (1 - u) ^ m"
    using Cons.prems(2) x u by simp
  have step: "(B + x) * (1 - unit_roundoff) ^ Suc m \<le> fl (s + fl x)"
    using fl_ge_rel [OF ge le] by (simp add: u_def mult_ac)
  have "((B + x) + spec_sum_delay kvs) * (1 - unit_roundoff) ^ (Suc m + length kvs)
          \<le> foldl (\<lambda>s kv. fl (s + fl (seconds (delaySum (snd kv))))) (fl (s + fl x)) kvs"
    using rest _ _ step
  proof (rule Cons.IH)
    show "0 \<le> B + x" using Cons.prems(2) x by simp
    show "1 \<le> Suc m" by simp
  qed
  then show ?case
    by (simp add: x_def spec_sum_delay_def add.assoc)
qed

lemma spec_sum_delay_nonneg: "nonneg_delays kvs \<Longrightarrow> 0 \<le> spec_sum_delay kvs"
  by (induction kvs) (simp_all add: spec_sum_delay_def nonneg_delays_def seconds_nonneg)

lemma sum_delay_bounds:
  assumes "nonneg_delays kvs"
  shows "spec_sum_delay kvs * (1 - unit_roundoff) ^ Suc (length kvs) \<le> sum_delay kvs"
    and "sum_delay kvs \<le> spec_sum_delay kvs * (1 + unit_roundoff) ^ Suc (length kvs)"
proof -
  show "spec_sum_delay kvs * (1 - unit_roundoff) ^ Suc (length kvs) \<le> sum_delay kvs"
    using foldl_delay_lower [OF assms, of 0 1 0] by (simp add: sum_delay_def)
  show "sum_delay kvs \<le> spec_sum_delay kvs * (1 + unit_roundoff) ^ Suc (length kvs)"
    using foldl_delay_upper [OF assms, of 0 0 1] by (simp add: sum_delay_def)
qed

lemma rounded_avg_bounds:
  fixes S Sf :: real and R n :: nat
  assumes "0 < R" and "0 \<le> S"
    and "S * (1 - unit_roundoff) ^ Suc n \<le> Sf"
    and "Sf \<le> S * (1 + unit_roundoff) ^ Suc n"
  shows "S / real R * 1000 * ((1 - unit_roundoff) ^ (n + 3) / (1 + unit_roundoff))
           \<le> fl (fl (Sf / fl (real R)) * 1000)"
    and "fl (fl (Sf / fl (real R)) * 1000)
           \<le> S / real R * 1000 * ((1 + unit_roundoff) ^ (n + 3) / (1 - unit_roundoff))"
proof -
  define u where "u = unit_roundoff"
  define P where "P = (1 + u) ^ Suc n"
  define Q where "Q = (1 - u) ^ Suc n"
  have u: "0 < u" "u < 1" using roundoff_bounds by (simp_all add: u_def)
  have P: "0 < P" and Q: "0 < Q" using u by (simp_all add: P_def Q_def)
  have R: "0 < real R" using assms(1) by simp
  have lo0: "0 \<le> S * Q" using assms(2) Q by simp
  have hi0: "0 \<le> S * P" using assms(2) P by simp
  have Sf: "S * Q \<le> Sf" "Sf \<le> S * P" "0 \<le> Sf"
    using assms(3,4) lo0 by (simp_all add: P_def Q_def u_def)
  have t: "real R * (1 - u) \<le> fl (real R)" "fl (real R) \<le> real R * (1 + u)" "0 < fl (real R)"
    using fl_ge_rel [of "real R" "real R"] fl_le_rel [of "real R" "real R"] fl_pos [OF R] R
    by (simp_all add: u_def)
  have tlo: "0 < real R * (1 - u)" using R u by simp
  have d1: "S * Q / (real R * (1 + u)) \<le> Sf / fl (real R)"
    using Sf(3) Sf(1) t(3) t(2) by (rule frac_le)
  have d2: "Sf / fl (real R) \<le> S * P / (real R * (1 - u))"
    using hi0 Sf(2) tlo t(1) by (rule frac_le)
  have d0: "0 \<le> Sf / fl (real R)" using Sf(3) t(3) by simp
  have dlo: "0 \<le> S * Q / (real R * (1 + u))" using lo0 R u by simp
  have f1: "S * Q / (real R * (1 + u)) * (1 - u) \<le> fl (Sf / fl (real R))"
      "fl (Sf / fl (real R)) \<le> S * P / (real R * (1 - u)) * (1 + u)"
      "0 \<le> fl (Sf / fl (real R))"
    using fl_ge_rel [OF dlo d1] fl_le_rel [OF d0 d2] fl_nonneg [OF d0] by (simp_all add: u_def)
  have mlo: "0 \<le> S * Q / (real R * (1 + u)) * (1 - u) * 1000"
  proof -
    have "0 \<le> 1 - u" using u by simp
    with dlo have "0 \<le> S * Q / (real R * (1 + u)) * (1 - u)"
      by (rule mult_nonneg_nonneg)
    then show ?thesis
      by (rule mult_nonneg_nonneg) simp
  qed
  have m1: "S * Q / (real R * (1 + u)) * (1 - u) * 1000 \<le> fl (Sf / fl (real R)) * 1000"
    using f1(1) by (rule mult_right_mono) simp
  have m2: "fl (Sf / fl (real R)) * 1000 \<le> S * P / (real R * (1 - u)) * (1 + u) * 1000"
    using f1(2) by (rule mult_right_mono) simp
  have m0: "0 \<le> fl (Sf / fl (real R)) * 1000"
    using f1(3) by simp
  have f2: "S * Q / (real R * (1 + u)) * (1 - u) * 1000 * (1 - u)
        \<le> fl (fl (Sf / fl (real R)) * 1000)"
      "fl (fl (Sf / fl (real R)) * 1000)
        \<le> S * P / (real R * (1 - u)) * (1 + u) * 1000 * (1 + u)"
    using fl_ge_rel [OF mlo m1] fl_le_rel [OF m0 m2] by (simp_all add: u_def)
  have p3: "(1 + u) ^ (n + 3) = P * (1 + u) * (1 + u)"
    by (simp add: P_def eval_nat_numeral mult_ac)
  have q3: "(1 - u) ^ (n + 3) = Q * (1 - u) * (1 - u)"
    by (simp add: Q_def eval_nat_numeral mult_ac)
  have e1: "S * Q / (real R * (1 + u)) * (1 - u) * 1000 * (1 - u)
        = S / real R * 1000 * ((1 - u) ^ (n + 3) / (1 + u))"
    unfolding q3 by simp
  have e2: "S * P / (real R * (1 - u)) * (1 + u) * 1000 * (1 + u)
        = S / real R * 1000 * ((1 + u) ^ (n + 3) / (1 - u))"
    unfolding p3 by simp
  show "S / real R * 1000 * ((1 - unit_roundoff) ^ (n + 3) / (1 + unit_roundoff))
           \<le> fl (fl (Sf / fl (real R)) * 1000)"
    using f2(1) unfolding e1 by (simp only: u_def)
  show "fl (fl (Sf / fl (real R)) * 1000)
           \<le> S / real R * 1000 * ((1 + unit_roundoff) ^ (n + 3) / (1 - unit_roundoff))"
    using f2(2) unfolding e2 by (simp only: u_def)
qed

lemma rounded_avgDelayMs_close:
  assumes "nonneg_delays kvs"
  shows "spec_avgDelayMs kvs *
           ((1 - unit_roundoff) ^ (length kvs + 3) / (1 + unit_roundoff))
           \<le> rounded_avgDelayMs kvs \<and>
         rounded_avgDelayMs kvs
           \<le> spec_avgDelayMs kvs *
               ((1 + unit_roundoff) ^ (length kvs + 3) / (1 - unit_roundoff))"
proof (cases "sum_rx kvs = 0")
  case True
  then show ?thesis
    by (simp add: rounded_avgDelayMs_def spec_avgDelayMs_def)
next
  case False
  then have R: "0 < sum_rx kvs" by simp
  note b = rounded_avg_bounds [OF R spec_sum_delay_nonneg [OF assms] sum_delay_bounds [OF assms]]
  from b False show ?thesis
    by (simp only: rounded_avgDelayMs_def spec_avgDelayMs_def if_False simp_thms)
qed

subsection \<open>The metrics on sample outputs\<close>

text \<open>Values computed by unfolding the definitions, and how they are written.\<close>

lemmas metrics_eval =
  metrics_def Let_def throughput_def avgDelay_def loss_def ddiv_def dmul_def dadd_def dsub_def
  of_u64_def GetSeconds_def totalRx_def initCounters_def addFlow_def duration_def appStart_def
  appStop_def

lemma fixed2_five: "fixed2 5 = ''5.00''"
  by (simp add: fixed2_def hundredths_def rint_def digit_char_def dec_digits_small)

lemma ce1_value:
  "throughputMbps (metrics 5 \<lparr>sink = Some 16875, stats = []\<rparr>) = Some (1080863910568919 / 2 ^ 56)"
  by (simp add: metrics_eval fl_eval)


lemma ce3_value:
  "lossPct (metrics 5 \<lparr>sink = Some 0, stats =
     [(1, \<lparr>delaySum = 0, rxPackets = 19999, txPackets = 20000, lostPackets = 1\<rparr>)]\<rparr>)
   = Some (5764607523034235 / 2 ^ 60)"
  by (simp add: metrics_eval fl_eval)

lemma ce6_value:
  "avgDelayMs (metrics 5 \<lparr>sink = Some 0, stats =
     [(1, \<lparr>delaySum = 300000000, rxPackets = 320, txPackets = 320, lostPackets = 0\<rparr>),
      (2, \<lparr>delaySum = 200000000, rxPackets = 320, txPackets = 320, lostPackets = 0\<rparr>),
      (3, \<lparr>delaySum = 100000000, rxPackets = 320, txPackets = 320, lostPackets = 0\<rparr>)]\<rparr>)
   = Some (5 / 8)"
  by (simp add: metrics_eval fl_eval)

lemma ce6_value2:
  "avgDelayMs (metrics 5 \<lparr>sink = Some 0, stats =
     [(1, \<lparr>delaySum = 100000000, rxPackets = 320, txPackets = 320, lostPackets = 0\<rparr>),
      (2, \<lparr>delaySum = 200000000, rxPackets = 320, txPackets = 320, lostPackets = 0\<rparr>),
      (3, \<lparr>delaySum = 300000000, rxPackets = 320, txPackets = 320, lostPackets = 0\<rparr>)]\<rparr>)
   = Some (5629499534213121 / 2 ^ 53)"
  by (simp add: metrics_eval fl_eval)

lemma f1: "fixed2 (1080863910568919 / 2 ^ 56) = ''0.01''"
  by (simp add: fixed2_def hundredths_def rint_def digit_char_def dec_digits_small)

lemma f2: "fixed2 (3602879701896397 / 2 ^ 57) = ''0.03''"
  by (simp add: fixed2_def hundredths_def rint_def digit_char_def dec_digits_small)

lemma f3: "fixed2 (5764607523034235 / 2 ^ 60) = ''0.01''"
  by (simp add: fixed2_def hundredths_def rint_def digit_char_def dec_digits_small)

lemma f4: "fixed2 (5 / 8) = ''0.62''"
  by (simp add: fixed2_def hundredths_def rint_def digit_char_def dec_digits_small)

lemma f5: "fixed2 (5629499534213121 / 2 ^ 53) = ''0.63''"
  by (simp add: fixed2_def hundredths_def rint_def digit_char_def dec_digits_small)

lemma f6: "fixed2 (3 / 200) = ''0.02''"
  by (simp add: fixed2_def hundredths_def rint_def digit_char_def dec_digits_small)


lemma f8: "fixed2 (1 / 200) = ''0.00''"
  by (simp add: fixed2_def hundredths_def rint_def digit_char_def dec_digits_small)

subsection \<open>The throughput field\<close>

lemma rounded_throughput_zero: "rounded_throughput 0 = 0"
  by (simp add: rounded_throughput_def fl_zero)

lemma throughput_scenario:
  "throughputMbps (scenario eng n d) = Some (rounded_throughput (totalRx (sink (eng d (senders n)))))"
  by (simp add: scenario_def metrics_def Let_def throughput_value)

lemma throughput_metrics:
  "throughputMbps (metrics d out) = Some (rounded_throughput (totalRx (sink out)))"
  by (simp add: metrics_def Let_def throughput_value)

lemma first_two_fields:
  "throughputMbps r = Some t \<Longrightarrow> take 2 (fields (row_text r)) = [fixed2 (distance r), fixed2 t]"
  by (simp add: fields_row_text put_double_Some)

lemma distance_metrics: "distance (metrics d out) = d"
  by (simp add: metrics_def Let_def)

lemma spec_throughput_16875: "spec_throughput 16875 = 3 / 200"
  by (simp add: spec_throughput_def appStart_def appStop_def)

lemma rounded_throughput_1250000:
  "rounded_throughput 1250000 = fl (1250000 * 8 / (9 * 1000000))"
proof -
  have a: "fl (real_of_int 1250000) = real_of_int 1250000"
    by (rule fl_int) simp
  have b: "fl (real_of_int 10000000) = real_of_int 10000000"
    by (rule fl_int) simp
  show ?thesis
    using a b by (simp add: rounded_throughput_def appStart_def appStop_def)
qed

lemma printed_10_9: "fixed2 (fl (1250000 * 8 / (9 * 1000000))) = ''1.11''"
proof -
  have v: "fl (1250000 * 8 / (9 * 1000000)) = 2501999792983609 / 2 ^ 51"
    by (simp add: fl_eval)
  show ?thesis
    unfolding v by (simp add: fixed2_def hundredths_def rint_def digit_char_def dec_digits_small)
qed

subsection \<open>The delay and loss fields\<close>

lemma avgDelay_metrics:
  assumes "distinct (map fst (stats out))"
  shows "avgDelayMs (metrics d out) = Some (rounded_avgDelayMs (stats out))"
  by (simp add: metrics_def Let_def avgDelay_value totals_exact(1) [OF assms]
      sumDelaySec_init rounded_avgDelayMs_def)

lemma loss_metrics:
  assumes "distinct (map fst (stats out))"
  shows "lossPct (metrics d out) = Some (rounded_lossPercent (stats out))"
  by (simp add: metrics_def Let_def loss_value totals_exact(2,3) [OF assms]
      rounded_lossPercent_def)

lemma fields_metrics:
  "\<lbrakk>throughputMbps (metrics d out) = Some t; avgDelayMs (metrics d out) = Some a;
    lossPct (metrics d out) = Some l\<rbrakk>
   \<Longrightarrow> fields (row_text (metrics d out)) = [fixed2 d, fixed2 t, fixed2 a, fixed2 l]"
  by (simp add: fields_row_text put_double_Some distance_metrics)

lemma rounded_loss_100_5: "fl (fl (100 * fl (real 5)) / fl (real 100)) = 5"
proof -
  have a: "fl (real_of_int 5) = real_of_int 5" by (rule fl_int) simp
  have b: "fl (real_of_int 500) = real_of_int 500" by (rule fl_int) simp
  have c: "fl (real_of_int 100) = real_of_int 100" by (rule fl_int) simp
  show ?thesis
    using a b c by simp
qed

subsection \<open>Order of the flow records\<close>

text \<open>The three packet totals do not depend on the order in which the flow records are
  visited: addition of machine words is commutative and associative, also where it wraps.
  The exact sums of the specification do not depend on it either.\<close>

lemma sum_over_records:
  fixes g :: "FlowStats \<Rightarrow> 'b :: comm_monoid_add"
  assumes "mset (map snd kvs) = mset (map snd kvs')"
  shows "sum_list (map (\<lambda>kv. g (snd kv)) kvs) = sum_list (map (\<lambda>kv. g (snd kv)) kvs')"
proof -
  have "sum_list (map g (map snd kvs)) = sum_list (map g (map snd kvs'))"
    using assms by (rule sum_list_reordered)
  then show ?thesis
    by (simp add: comp_def)
qed

lemma counters_reordered:
  assumes "mset (map snd kvs) = mset (map snd kvs')"
  shows "rxTotal (accumulate c kvs) = rxTotal (accumulate c kvs') \<and>
         txTotal (accumulate c kvs) = txTotal (accumulate c kvs') \<and>
         lostTotal (accumulate c kvs) = lostTotal (accumulate c kvs')"
  using sum_over_records [OF assms, of "\<lambda>st. ucast (rxPackets st) :: 64 word"]
    sum_over_records [OF assms, of "\<lambda>st. ucast (txPackets st) :: 64 word"]
    sum_over_records [OF assms, of "\<lambda>st. ucast (lostPackets st) :: 64 word"]
  by (simp only: accumulate_word_totals simp_thms)

lemma spec_sums_reordered:
  assumes "mset (map snd kvs) = mset (map snd kvs')"
  shows "sum_rx kvs = sum_rx kvs'" and "sum_tx kvs = sum_tx kvs'"
    and "sum_lost kvs = sum_lost kvs'" and "spec_sum_delay kvs = spec_sum_delay kvs'"
  unfolding sum_rx_def sum_tx_def sum_lost_def spec_sum_delay_def
  using sum_over_records [OF assms, of "\<lambda>st. unat (rxPackets st)"]
    sum_over_records [OF assms, of "\<lambda>st. unat (txPackets st)"]
    sum_over_records [OF assms, of "\<lambda>st. unat (lostPackets st)"]
    sum_over_records [OF assms, of "\<lambda>st. seconds (delaySum st)"]
  by (simp_all only:)

lemma spec_avgDelayMs_reordered:
  assumes "mset (map snd kvs) = mset (map snd kvs')"
  shows "spec_avgDelayMs kvs = spec_avgDelayMs kvs'"
  by (simp only: spec_avgDelayMs_def spec_sums_reordered [OF assms])

lemma nonneg_delays_records:
  "nonneg_delays kvs \<longleftrightarrow> (\<forall>st \<in> set_mset (mset (map snd kvs)). 0 \<le> sint (delaySum st))"
  by (simp add: nonneg_delays_def list_all_iff)

lemma nonneg_delays_reordered:
  assumes "mset (map snd kvs) = mset (map snd kvs')" and "nonneg_delays kvs"
  shows "nonneg_delays kvs'"
  using assms(2) by (simp only: nonneg_delays_records assms(1))

lemma length_reordered:
  assumes "mset (map snd kvs) = mset (map snd kvs')"
  shows "length kvs = length kvs'"
  using mset_eq_length [OF assms] by simp

lemma loss_reordered:
  assumes "mset (map snd kvs) = mset (map snd kvs')"
  shows "loss (accumulate c kvs) = loss (accumulate c kvs')"
  by (simp only: loss_def counters_reordered [OF assms])

lemma between_bounds:
  fixes a b lo hi :: real
  assumes "lo \<le> a" "a \<le> hi" "lo \<le> b" "b \<le> hi"
  shows "\<bar>a - b\<bar> \<le> hi - lo"
  using assms by linarith

lemma ce6_row:
  "fields (row_text (metrics 5 \<lparr>sink = Some 0, stats =
     [(1, \<lparr>delaySum = 300000000, rxPackets = 320, txPackets = 320, lostPackets = 0\<rparr>),
      (2, \<lparr>delaySum = 200000000, rxPackets = 320, txPackets = 320, lostPackets = 0\<rparr>),
      (3, \<lparr>delaySum = 100000000, rxPackets = 320, txPackets = 320, lostPackets = 0\<rparr>)]\<rparr>))
   = [''5.00'', ''0.00'', ''0.62'', ''0.00'']"
proof -
  let ?out = "\<lparr>sink = Some 0, stats =
     [(1, \<lparr>delaySum = 300000000, rxPackets = 320, txPackets = 320, lostPackets = 0\<rparr>),
      (2, \<lparr>delaySum = 200000000, rxPackets = 320, txPackets = 320, lostPackets = 0\<rparr>),
      (3, \<lparr>delaySum = 100000000, rxPackets = 320, txPackets = 320, lostPackets = 0\<rparr>)]\<rparr>"
  have t: "throughputMbps (metrics 5 ?out) = Some 0"
    by (simp add: throughput_metrics totalRx_def rounded_throughput_zero)
  have l: "lossPct (metrics 5 ?out) = Some 0"
    by (simp add: metrics_eval fl_eval)
  show ?thesis
    using fields_metrics [OF t ce6_value l] by (simp only: fixed2_five fixed2_zero f4)
qed

lemma ce6_row2:
  "fields (row_text (metrics 5 \<lparr>sink = Some 0, stats =
     [(1, \<lparr>delaySum = 100000000, rxPackets = 320, txPackets = 320, lostPackets = 0\<rparr>),
      (2, \<lparr>delaySum = 200000000, rxPackets = 320, txPackets = 320, lostPackets = 0\<rparr>),
      (3, \<lparr>delaySum = 300000000, rxPackets = 320, txPackets = 320, lostPackets = 0\<rparr>)]\<rparr>))
   = [''5.00'', ''0.00'', ''0.63'', ''0.00'']"
proof -
  let ?out = "\<lparr>sink = Some 0, stats =
     [(1, \<lparr>delaySum = 100000000, rxPackets = 320, txPackets = 320, lostPackets = 0\<rparr>),
      (2, \<lparr>delaySum = 200000000, rxPackets = 320, txPackets = 320, lostPackets = 0\<rparr>),
      (3, \<lparr>delaySum = 300000000, rxPackets = 320, txPackets = 320, lostPackets = 0\<rparr>)]\<rparr>"
  have t: "throughputMbps (metrics 5 ?out) = Some 0"
    by (simp add: throughput_metrics totalRx_def rounded_throughput_zero)
  have l: "lossPct (metrics 5 ?out) = Some 0"
    by (simp add: metrics_eval fl_eval)
  show ?thesis
    using fields_metrics [OF t ce6_value2 l] by (simp only: fixed2_five fixed2_zero f5)
qed

subsection \<open>Signs and bounds of the metrics\<close>


lemma rounded_throughput_nonneg: "0 \<le> rounded_throughput rx"
proof -
  have "0 \<le> fl (real (unat rx))"
    by (rule fl_nonneg) (rule of_nat_0_le_iff)
  then have "0 \<le> fl (fl (real (unat rx)) * 8)"
    by (intro fl_nonneg) simp
  moreover have "0 < (appStop - appStart) * 1000000"
    by (simp add: appStart_def appStop_def)
  ultimately have "0 \<le> fl (fl (real (unat rx)) * 8) / ((appStop - appStart) * 1000000)"
    by (rule divide_nonneg_pos)
  then show ?thesis
    unfolding rounded_throughput_def by (rule fl_nonneg)
qed

lemma fl_real_nonneg: "0 \<le> fl (real n)"
  by (rule fl_nonneg) (rule of_nat_0_le_iff)

lemma fl_real_pos: "0 < n \<Longrightarrow> 0 < fl (real n)"
  by (rule fl_pos) simp

lemma avg_expr_nonneg:
  assumes "0 \<le> s"
  shows "0 \<le> fl (fl (s / fl (real R)) * 1000)"
proof -
  have "0 \<le> s / fl (real R)"
    using assms fl_real_nonneg [of R] by (rule divide_nonneg_nonneg)
  then have "0 \<le> fl (s / fl (real R))"
    by (rule fl_nonneg)
  then show ?thesis
    by (intro fl_nonneg) simp
qed

lemma loss_expr_nonneg: "0 \<le> fl (fl (100 * fl (real L)) / fl (real T))"
proof -
  have "0 \<le> 100 * fl (real L)"
    using fl_real_nonneg [of L] by simp
  then have "0 \<le> fl (100 * fl (real L))"
    by (rule fl_nonneg)
  then have "0 \<le> fl (100 * fl (real L)) / fl (real T)"
    using fl_real_nonneg [of T] by (rule divide_nonneg_nonneg)
  then show ?thesis
    by (rule fl_nonneg)
qed

lemma rounded_lossPercent_nonneg: "0 \<le> rounded_lossPercent kvs"
  using loss_expr_nonneg by (simp add: rounded_lossPercent_def)

lemma fl_hundred: "fl 100 = 100"
  using fl_nat [of 100] by simp

lemma loss_expr_le_100:
  assumes "L \<le> T" and "0 < T" and "100 * L < 2 ^ 53"
  shows "fl (fl (100 * fl (real L)) / fl (real T)) \<le> 100"
proof -
  have l: "fl (real L) = real L"
    using assms(3) by (intro fl_nat) simp
  have h: "fl (real (100 * L)) = real (100 * L)"
    using assms(3) by (rule fl_nat)
  have t: "0 < fl (real T)"
    using assms(2) by (rule fl_real_pos)
  have "fl (real L) \<le> fl (real T)"
    using assms(1) by (intro fl_mono) simp_all
  then have "real L \<le> fl (real T)"
    by (simp only: l)
  then have "real (100 * L) / fl (real T) \<le> 100"
    using t by (simp add: field_simps)
  moreover have "0 \<le> real (100 * L) / fl (real T)"
    using t by (intro divide_nonneg_nonneg) simp_all
  ultimately have "fl (real (100 * L) / fl (real T)) \<le> fl 100"
    by (intro fl_mono)
  moreover have "fl (100 * fl (real L)) = real (100 * L)"
    using h by (simp add: l)
  ultimately show ?thesis
    by (simp only: fl_hundred)
qed

lemma fl_hundred_up: "fl (100 * (1 + unit_roundoff)) = 100 + 1 / 2 ^ 46"
  by (simp add: unit_roundoff_def fl_eval)

lemma loss_expr_le:
  assumes "L \<le> T" and "0 < T"
  shows "fl (fl (100 * fl (real L)) / fl (real T)) \<le> 100 + 1 / 2 ^ 46"
proof -
  let ?x = "fl (real L)" and ?y = "fl (real T)"
  have x: "0 \<le> ?x" by (rule fl_real_nonneg)
  have y: "0 < ?y" using assms(2) by (rule fl_real_pos)
  have xy: "?x \<le> ?y"
    using assms(1) by (intro fl_mono) simp_all
  have u: "0 \<le> 1 + unit_roundoff"
    using roundoff_bounds by simp
  have n: "0 \<le> fl (100 * ?x)"
    using x by (intro fl_nonneg) simp
  have "fl (100 * ?x) \<le> 100 * ?x * (1 + unit_roundoff)"
    using x by (intro fl_le_rel) simp_all
  also have "\<dots> \<le> 100 * ?y * (1 + unit_roundoff)"
    using xy u by (intro mult_right_mono) simp_all
  also have "\<dots> = (100 * (1 + unit_roundoff)) * ?y"
    by (simp only: mult_ac)
  finally have "fl (100 * ?x) \<le> (100 * (1 + unit_roundoff)) * ?y" .
  then have "fl (100 * ?x) / ?y \<le> 100 * (1 + unit_roundoff)"
    using y by (simp add: pos_divide_le_eq)
  moreover have "0 \<le> fl (100 * ?x) / ?y"
    using n y by (intro divide_nonneg_nonneg) simp_all
  ultimately have "fl (fl (100 * ?x) / ?y) \<le> fl (100 * (1 + unit_roundoff))"
    by (intro fl_mono)
  then show ?thesis
    by (simp only: fl_hundred_up)
qed

lemma totals_nowrap:
  assumes "sum_lost kvs \<le> sum_tx kvs" and "sum_tx kvs < 2 ^ 64"
  shows "unat (txTotal (accumulate initCounters kvs)) = sum_tx kvs"
    and "unat (lostTotal (accumulate initCounters kvs)) = sum_lost kvs"
proof -
  show "unat (txTotal (accumulate initCounters kvs)) = sum_tx kvs"
    using accumulate_txTotal [of initCounters kvs] assms(2) by (simp add: initCounters_def)
  have "sum_lost kvs < 2 ^ 64"
    using assms by simp
  then show "unat (lostTotal (accumulate initCounters kvs)) = sum_lost kvs"
    using accumulate_lostTotal [of initCounters kvs] by (simp add: initCounters_def)
qed

lemma tx_zero:
  assumes "sum_tx kvs = 0"
  shows "unat (txTotal (accumulate initCounters kvs)) = 0"
  using accumulate_txTotal [of initCounters kvs] assms by (simp add: initCounters_def)

lemma loss_metrics_value:
  "lossPct (metrics d out) =
     Some (if unat (txTotal (accumulate initCounters (stats out))) = 0 then 0
           else fl (fl (100 * fl (real (unat (lostTotal (accumulate initCounters (stats out))))))
                  / fl (real (unat (txTotal (accumulate initCounters (stats out)))))))"
  by (simp add: metrics_def Let_def loss_value)

lemma loss_metrics_nowrap:
  assumes "sum_lost (stats out) \<le> sum_tx (stats out)" and "sum_tx (stats out) < 2 ^ 64"
  shows "lossPct (metrics d out) = Some (rounded_lossPercent (stats out))"
  by (simp only: loss_metrics_value totals_nowrap [OF assms] rounded_lossPercent_def)

lemma avgDelay_metrics_value:
  "avgDelayMs (metrics d out) =
     Some (if unat (rxTotal (accumulate initCounters (stats out))) = 0 then 0
           else fl (fl (sum_delay (stats out)
                        / fl (real (unat (rxTotal (accumulate initCounters (stats out)))))) * 1000))"
  by (simp add: metrics_def Let_def avgDelay_value sumDelaySec_init)

lemma map_snd_many_flows: "map snd (many_flows k st) = replicate k st"
  unfolding many_flows_def by (simp add: map_snd_zip_take)

lemma map_fst_many_flows: "map fst (many_flows k st) = map word_of_nat [0..<k]"
  unfolding many_flows_def by (simp add: map_fst_zip_take)

lemma distinct_many_flows:
  assumes "k \<le> 2 ^ 32"
  shows "distinct (map fst (many_flows k st))"
proof -
  have "inj_on (word_of_nat :: nat \<Rightarrow> 32 word) (set [0..<k])"
  proof (rule inj_onI)
    fix x y
    assume "x \<in> set [0..<k]" "y \<in> set [0..<k]"
      and e: "(word_of_nat x :: 32 word) = word_of_nat y"
    then have b: "x < 2 ^ 32" "y < 2 ^ 32"
      using assms by simp_all
    from e have "unat (word_of_nat x :: 32 word) = unat (word_of_nat y :: 32 word)"
      by simp
    with b show "x = y"
      by (simp add: unat_of_nat take_bit_nat_eq_self)
  qed
  then show ?thesis
    by (simp add: map_fst_many_flows distinct_map)
qed

lemma sum_over_many_flows:
  "sum_list (map (\<lambda>kv. g (snd kv)) (many_flows k st)) = k * (g st :: nat)"
proof -
  have "sum_list (map g (map snd (many_flows k st))) = k * g st"
    by (simp only: map_snd_many_flows) (simp add: sum_list_replicate)
  then show ?thesis
    by (simp add: comp_def)
qed

lemma sums_many_flows:
  "sum_tx (many_flows k st) = k * unat (txPackets st)"
  "sum_lost (many_flows k st) = k * unat (lostPackets st)"
  unfolding sum_tx_def sum_lost_def
  using sum_over_many_flows [of "\<lambda>st. unat (txPackets st)" k st]
    sum_over_many_flows [of "\<lambda>st. unat (lostPackets st)" k st]
  by (simp_all only:)

lemma ce7_sums:
  "sum_tx (many_flows 100001
     \<lparr>delaySum = 0, rxPackets = 0, txPackets = 4294967295, lostPackets = 4294967295\<rparr>)
   = 429501024467295"
  "sum_lost (many_flows 100001
     \<lparr>delaySum = 0, rxPackets = 0, txPackets = 4294967295, lostPackets = 4294967295\<rparr>)
   = 429501024467295"
  by (simp_all add: sums_many_flows)

lemma ce7_rounded:
  "fl (fl (100 * fl (real 429501024467295)) / fl (real 429501024467295)) = 100 + 1 / 2 ^ 46"
  by (simp add: fl_eval)

lemma ce7_value:
  "lossPct (metrics 5 \<lparr>sink = Some 0, stats = many_flows 100001
     \<lparr>delaySum = 0, rxPackets = 0, txPackets = 4294967295, lostPackets = 4294967295\<rparr>\<rparr>)
   = Some (100 + 1 / 2 ^ 46)"
proof -
  let ?kvs = "many_flows 100001
     \<lparr>delaySum = 0, rxPackets = 0, txPackets = 4294967295, lostPackets = 4294967295\<rparr>"
  have "lossPct (metrics 5 \<lparr>sink = Some 0, stats = ?kvs\<rparr>) = Some (rounded_lossPercent ?kvs)"
    using loss_metrics_nowrap [of "\<lparr>sink = Some 0, stats = ?kvs\<rparr>" 5]
    by (simp add: ce7_sums)
  also have "rounded_lossPercent ?kvs = 100 + 1 / 2 ^ 46"
    unfolding rounded_lossPercent_def ce7_sums using ce7_rounded by simp
  finally show ?thesis .
qed

lemma ce7_small:
  "lossPct (metrics 5 \<lparr>sink = Some 0, stats =
     [(1, \<lparr>delaySum = 0, rxPackets = 0, txPackets = 1, lostPackets = 2\<rparr>)]\<rparr>) = Some 200"
  by (simp add: metrics_eval fl_eval)

subsection \<open>Metrics that are zero\<close>









section \<open>The claims\<close>

text \<open>C1, as stated: the throughput written to the row equals
  \<open>receivedBytes * 8 / ((appStop - appStart) * 1000000)\<close>. As an identity between
  numbers this fails by the rounding of the doubles: with \<open>16875\<close> bytes received the
  formula gives \<open>3 / 200\<close>, which is written as \<open>0.02\<close>, while the program computes the
  double \<open>1080863910568919 / 2^56\<close> just below it and writes \<open>0.01\<close>.\<close>

theorem throughput_exact_counterexample:
  "spec_throughput 16875 = 3 / 200 \<and>
   throughputMbps (metrics 5 \<lparr>sink = Some 16875, stats = []\<rparr>)
     = Some (1080863910568919 / 2 ^ 56) \<and>
   throughputMbps (metrics 5 \<lparr>sink = Some 16875, stats = []\<rparr>)
     \<noteq> Some (spec_throughput 16875) \<and>
   take 2 (fields (row_text (metrics 5 \<lparr>sink = Some 16875, stats = []\<rparr>)))
     = [''5.00'', ''0.01''] \<and>
   fixed2 (spec_throughput 16875) = ''0.02''"
proof -
  have "take 2 (fields (row_text (metrics 5 \<lparr>sink = Some 16875, stats = []\<rparr>)))
     = [''5.00'', ''0.01'']"
    using first_two_fields [OF ce1_value] by (simp only: distance_metrics fixed2_five f1)
  moreover have "(1080863910568919 / 2 ^ 56 :: real) \<noteq> 3 / 200"
    by simp
  ultimately show ?thesis
    by (simp only: ce1_value spec_throughput_16875 f6 option.inject simp_thms)
qed

text \<open>C1, amended: for every scenario the throughput is the formula
  \<open>receivedBytes * 8 / ((appStop - appStart) * 1000000)\<close> evaluated in binary64, where
  \<open>receivedBytes\<close> is the byte total read from the sink of the access point. Since
  \<open>appStart < appStop\<close> the divisor is not zero and the result is a number. It differs
  from the exact value of the formula by at most \<open>2^-51\<close> of that value. With \<open>1250000\<close>
  bytes received and the times \<open>1\<close> and \<open>10\<close> of \<^verbatim>\<open>main\<close> it is the double nearest
  to \<open>1250000 * 8 / (9 * 1000000)\<close>, written as \<open>1.11\<close>.\<close>

theorem throughput_formula:
  "appStart < appStop \<and> (appStop - appStart) * 1000000 \<noteq> 0 \<and>
   totalRx (Some rx) = rx \<and>
   throughputMbps (scenario eng n d) =
     Some (rounded_throughput (totalRx (sink (eng d (senders n))))) \<and>
   \<bar>rounded_throughput w - spec_throughput w\<bar> \<le> spec_throughput w / 2 ^ 51 \<and>
   take 2 (fields (row_text (scenario eng n d))) =
     [fixed2 d, fixed2 (rounded_throughput (totalRx (sink (eng d (senders n)))))] \<and>
   throughputMbps (metrics d \<lparr>sink = Some 1250000, stats = kvs\<rparr>) =
     Some (fl (1250000 * 8 / (9 * 1000000))) \<and>
   take 2 (fields (row_text (metrics d \<lparr>sink = Some 1250000, stats = kvs\<rparr>))) =
     [fixed2 d, ''1.11'']"
proof (intro conjI)
  show "appStart < appStop"
    by (simp add: appStart_def appStop_def)
  show "(appStop - appStart) * 1000000 \<noteq> 0"
    by (rule divisor_nonzero)
  show "totalRx (Some rx) = rx"
    by (simp add: totalRx_def)
  show "throughputMbps (scenario eng n d) =
     Some (rounded_throughput (totalRx (sink (eng d (senders n)))))"
    by (rule throughput_scenario)
  show "\<bar>rounded_throughput w - spec_throughput w\<bar> \<le> spec_throughput w / 2 ^ 51"
    by (rule rounded_throughput_close)
  show "take 2 (fields (row_text (scenario eng n d))) =
     [fixed2 d, fixed2 (rounded_throughput (totalRx (sink (eng d (senders n)))))]"
    using first_two_fields [OF throughput_scenario, of eng n d]
    by (simp only: distance_scenario)
  have m: "throughputMbps (metrics d \<lparr>sink = Some 1250000, stats = kvs\<rparr>) =
     Some (fl (1250000 * 8 / (9 * 1000000)))"
    by (simp add: throughput_metrics totalRx_def rounded_throughput_1250000)
  show "throughputMbps (metrics d \<lparr>sink = Some 1250000, stats = kvs\<rparr>) =
     Some (fl (1250000 * 8 / (9 * 1000000)))"
    by (rule m)
  show "take 2 (fields (row_text (metrics d \<lparr>sink = Some 1250000, stats = kvs\<rparr>))) =
     [fixed2 d, ''1.11'']"
    using first_two_fields [OF m] by (simp only: distance_metrics printed_10_9)
qed




text \<open>C3, as stated: the loss equals \<open>100\<close> times the sum of \<open>lostPackets\<close> divided by
  the sum of \<open>txPackets\<close>. As an identity between numbers this fails by the rounding of
  the doubles: for \<open>1\<close> lost packet of \<open>20000\<close> the formula gives \<open>1 / 200\<close>, written as
  \<open>0.00\<close>, while the program computes the double \<open>5764607523034235 / 2^60\<close> just above
  it and writes \<open>0.01\<close>.\<close>

theorem loss_exact_counterexample:
  "distinct (map fst
     [(1 :: FlowId, \<lparr>delaySum = 0, rxPackets = 19999, txPackets = 20000, lostPackets = 1\<rparr>)]) \<and>
   spec_lossPercent
     [(1, \<lparr>delaySum = 0, rxPackets = 19999, txPackets = 20000, lostPackets = 1\<rparr>)] = 1 / 200 \<and>
   lossPct (metrics 5 \<lparr>sink = Some 0, stats =
     [(1, \<lparr>delaySum = 0, rxPackets = 19999, txPackets = 20000, lostPackets = 1\<rparr>)]\<rparr>)
     = Some (5764607523034235 / 2 ^ 60) \<and>
   lossPct (metrics 5 \<lparr>sink = Some 0, stats =
     [(1, \<lparr>delaySum = 0, rxPackets = 19999, txPackets = 20000, lostPackets = 1\<rparr>)]\<rparr>)
     \<noteq> Some (spec_lossPercent
         [(1, \<lparr>delaySum = 0, rxPackets = 19999, txPackets = 20000, lostPackets = 1\<rparr>)]) \<and>
   fixed2 (5764607523034235 / 2 ^ 60) = ''0.01'' \<and>
   fixed2 (spec_lossPercent
     [(1, \<lparr>delaySum = 0, rxPackets = 19999, txPackets = 20000, lostPackets = 1\<rparr>)]) = ''0.00''"
proof -
  have s: "spec_lossPercent
     [(1, \<lparr>delaySum = 0, rxPackets = 19999, txPackets = 20000, lostPackets = 1\<rparr>)] = 1 / 200"
    by (simp add: spec_lossPercent_def sum_tx_def sum_lost_def)
  have "(5764607523034235 / 2 ^ 60 :: real) \<noteq> 1 / 200"
    by simp
  then show ?thesis
    by (simp only: s ce3_value f3 f8 option.inject simp_thms) simp
qed

text \<open>C3, amended: for flow records under distinct flow identifiers, the loss percentage
  is \<open>100\<close> times the sum of \<open>lostPackets\<close> divided by the sum of \<open>txPackets\<close>, evaluated
  in binary64, and \<open>0\<close> when the sum of \<open>txPackets\<close> is \<open>0\<close>; it differs from the exact
  value by at most \<open>2^-50\<close> of that value, and totals of \<open>100\<close> sent and \<open>5\<close> lost packets
  give exactly \<open>5\<close>.\<close>

theorem lossPct_rounded:
  assumes "distinct (map fst (stats out))"
  shows "lossPct (metrics d out) = Some (rounded_lossPercent (stats out)) \<and>
         \<bar>rounded_lossPercent (stats out) - spec_lossPercent (stats out)\<bar>
           \<le> spec_lossPercent (stats out) / 2 ^ 50 \<and>
         (sum_tx (stats out) = 0 \<longrightarrow> lossPct (metrics d out) = Some 0) \<and>
         (sum_tx (stats out) = 100 \<and> sum_lost (stats out) = 5 \<longrightarrow>
            lossPct (metrics d out) = Some 5)"
proof (intro conjI impI)
  show v: "lossPct (metrics d out) = Some (rounded_lossPercent (stats out))"
    using assms by (rule loss_metrics)
  show "\<bar>rounded_lossPercent (stats out) - spec_lossPercent (stats out)\<bar>
           \<le> spec_lossPercent (stats out) / 2 ^ 50"
    by (rule rounded_lossPercent_close)
  show "lossPct (metrics d out) = Some 0" if "sum_tx (stats out) = 0"
    using that by (simp add: v rounded_lossPercent_def)
  show "lossPct (metrics d out) = Some 5"
    if "sum_tx (stats out) = 100 \<and> sum_lost (stats out) = 5"
    using that rounded_loss_100_5 by (simp add: v rounded_lossPercent_def)
qed

theorem lossPct_rounded_witness:
  "distinct (map fst [(1 :: FlowId, \<lparr>delaySum = 250000000, rxPackets = 58, txPackets = 60, lostPackets = 2\<rparr>),
                      (2, \<lparr>delaySum = 750000000, rxPackets = 37, txPackets = 40, lostPackets = 3\<rparr>)]) \<and>
   sum_tx [(1 :: FlowId, \<lparr>delaySum = 250000000, rxPackets = 58, txPackets = 60, lostPackets = 2\<rparr>),
           (2, \<lparr>delaySum = 750000000, rxPackets = 37, txPackets = 40, lostPackets = 3\<rparr>)] = 100 \<and>
   sum_lost [(1 :: FlowId, \<lparr>delaySum = 250000000, rxPackets = 58, txPackets = 60, lostPackets = 2\<rparr>),
             (2, \<lparr>delaySum = 750000000, rxPackets = 37, txPackets = 40, lostPackets = 3\<rparr>)] = 5 \<and>
   lossPct (metrics 5 \<lparr>sink = Some 1250000, stats =
       [(1, \<lparr>delaySum = 250000000, rxPackets = 58, txPackets = 60, lostPackets = 2\<rparr>),
        (2, \<lparr>delaySum = 750000000, rxPackets = 37, txPackets = 40, lostPackets = 3\<rparr>)]\<rparr>) = Some 5 \<and>
   sum_tx [(7 :: FlowId, \<lparr>delaySum = 0, rxPackets = 0, txPackets = 0, lostPackets = 4\<rparr>)] = 0 \<and>
   lossPct (metrics 5 \<lparr>sink = Some 0, stats =
       [(7, \<lparr>delaySum = 0, rxPackets = 0, txPackets = 0, lostPackets = 4\<rparr>)]\<rparr>) = Some 0"
proof -
  let ?A = "[(1 :: FlowId, \<lparr>delaySum = 250000000, rxPackets = 58, txPackets = 60, lostPackets = 2\<rparr>),
             (2, \<lparr>delaySum = 750000000, rxPackets = 37, txPackets = 40, lostPackets = 3\<rparr>)]"
  let ?B = "[(7 :: FlowId, \<lparr>delaySum = 0, rxPackets = 0, txPackets = 0, lostPackets = 4\<rparr>)]"
  have dA: "distinct (map fst ?A)" by simp
  have dB: "distinct (map fst ?B)" by simp
  have tA: "sum_tx ?A = 100" by (simp add: sum_tx_def)
  have lA: "sum_lost ?A = 5" by (simp add: sum_lost_def)
  have zB: "sum_tx ?B = 0" by (simp add: sum_tx_def)
  note a = lossPct_rounded [of "\<lparr>sink = Some 1250000, stats = ?A\<rparr>" 5,
      unfolded EngineOutput.simps, OF dA]
  note b = lossPct_rounded [of "\<lparr>sink = Some 0, stats = ?B\<rparr>" 5,
      unfolded EngineOutput.simps, OF dB]
  from a tA lA b zB dA show ?thesis
    by blast
qed

text \<open>C4. A campaign over the distances \<open>ds\<close> appends one row per distance, in the order
  of \<open>ds\<close>, after what the store held (the header, for a store that did not exist). A
  store that did not exist ends up with exactly \<open>length ds\<close> data rows, the row of each
  scenario at the position of its distance, and the first field of each row is its
  distance; for \<^verbatim>\<open>main\<close> these are \<open>5.00\<close>, \<open>10.00\<close>, \<open>20.00\<close>, \<open>35.00\<close>,
  \<open>50.00\<close>.\<close>

theorem rows_in_order:
  "campaign eng n ds csv =
     Some ((case csv of None \<Rightarrow> csvHeader | Some c \<Rightarrow> c) @
           concat (map (\<lambda>d. csv_row (scenario eng n d)) ds)) \<and>
   data_rows (campaign eng n ds None) = map (\<lambda>d. row_text (scenario eng n d)) ds \<and>
   length (data_rows (campaign eng n ds None)) = length ds \<and>
   map (\<lambda>l. hd (fields l)) (data_rows (campaign eng n ds None)) = map fixed2 ds \<and>
   map (\<lambda>l. hd (fields l)) (data_rows (fst (main eng None))) =
     [''5.00'', ''10.00'', ''20.00'', ''35.00'', ''50.00'']"
proof (intro conjI)
  show "campaign eng n ds csv =
     Some ((case csv of None \<Rightarrow> csvHeader | Some c \<Rightarrow> c) @
           concat (map (\<lambda>d. csv_row (scenario eng n d)) ds))"
    by (rule campaign_content)
  show "data_rows (campaign eng n ds None) = map (\<lambda>d. row_text (scenario eng n d)) ds"
    by (rule data_rows_fresh)
  show "length (data_rows (campaign eng n ds None)) = length ds"
    by (simp only: data_rows_fresh length_map)
  show "map (\<lambda>l. hd (fields l)) (data_rows (campaign eng n ds None)) = map fixed2 ds"
    by (simp only: data_rows_fresh first_fields)
  show "map (\<lambda>l. hd (fields l)) (data_rows (fst (main eng None))) =
     [''5.00'', ''10.00'', ''20.00'', ''35.00'', ''50.00'']"
    by (simp only: main_def fst_conv data_rows_fresh first_fields fixed2_distances)
qed

text \<open>C5. Initialising the store is idempotent: a store that does not exist receives the
  header, an existing store is left as it is, and doing it twice is doing it once.
  Two campaigns in a row on a store that did not exist leave exactly one header line and
  \<open>2 * length ds\<close> data rows.\<close>

theorem header_written_once:
  "WriteCsvHeaderIfNeeded None = Some csvHeader \<and>
   WriteCsvHeaderIfNeeded (Some c) = Some c \<and>
   WriteCsvHeaderIfNeeded (WriteCsvHeaderIfNeeded csv) = WriteCsvHeaderIfNeeded csv \<and>
   campaign e2 n ds (campaign e1 n ds None) =
     Some (csvHeader @ concat (map (\<lambda>d. csv_row (scenario e1 n d)) ds) @
           concat (map (\<lambda>d. csv_row (scenario e2 n d)) ds)) \<and>
   header_rows (campaign e2 n ds (campaign e1 n ds None)) = [header_line] \<and>
   data_rows (campaign e2 n ds (campaign e1 n ds None)) =
     map (\<lambda>d. row_text (scenario e1 n d)) ds @ map (\<lambda>d. row_text (scenario e2 n d)) ds \<and>
   length (data_rows (campaign e2 n ds (campaign e1 n ds None))) = 2 * length ds"
proof -
  have idem: "WriteCsvHeaderIfNeeded (WriteCsvHeaderIfNeeded csv) = WriteCsvHeaderIfNeeded csv"
    by (cases csv) (simp_all add: WriteCsvHeaderIfNeeded_def)
  have content: "campaign e2 n ds (campaign e1 n ds None) =
     Some (csvHeader @ concat (map (\<lambda>d. csv_row (scenario e1 n d)) ds) @
           concat (map (\<lambda>d. csv_row (scenario e2 n d)) ds))"
    by (simp add: campaign_content)
  have hdr: "header_rows (campaign e2 n ds (campaign e1 n ds None)) = [header_line]"
    by (simp add: header_rows_def csv_lines_twice filter_row_texts_header)
  have rows: "data_rows (campaign e2 n ds (campaign e1 n ds None)) =
     map (\<lambda>d. row_text (scenario e1 n d)) ds @ map (\<lambda>d. row_text (scenario e2 n d)) ds"
    by (simp add: data_rows_def csv_lines_twice filter_row_texts_data)
  have "length (data_rows (campaign e2 n ds (campaign e1 n ds None))) = 2 * length ds"
    by (simp add: rows)
  with idem content hdr rows show ?thesis
    by (simp add: WriteCsvHeaderIfNeeded_def)
qed

text \<open>C6, as stated: the aggregated result is the same for every iteration order of the
  flow records. The average delay breaks this: the delays are added in doubles, in
  iteration order, and that addition is not associative. Three records with delay sums of
  \<open>0.3\<close>, \<open>0.2\<close> and \<open>0.1\<close> seconds and \<open>320\<close> received packets each give \<open>5 / 8\<close>,
  written as \<open>0.62\<close>, when visited in this order, and \<open>5629499534213121 / 2^53\<close>,
  written as \<open>0.63\<close>, when visited in the opposite order.\<close>

theorem avgDelay_order_counterexample:
  "mset (map snd
     [(1 :: FlowId, \<lparr>delaySum = 300000000, rxPackets = 320, txPackets = 320, lostPackets = 0\<rparr>),
      (2, \<lparr>delaySum = 200000000, rxPackets = 320, txPackets = 320, lostPackets = 0\<rparr>),
      (3, \<lparr>delaySum = 100000000, rxPackets = 320, txPackets = 320, lostPackets = 0\<rparr>)]) =
   mset (map snd
     [(1 :: FlowId, \<lparr>delaySum = 100000000, rxPackets = 320, txPackets = 320, lostPackets = 0\<rparr>),
      (2, \<lparr>delaySum = 200000000, rxPackets = 320, txPackets = 320, lostPackets = 0\<rparr>),
      (3, \<lparr>delaySum = 300000000, rxPackets = 320, txPackets = 320, lostPackets = 0\<rparr>)]) \<and>
   avgDelayMs (metrics 5 \<lparr>sink = Some 0, stats =
     [(1, \<lparr>delaySum = 300000000, rxPackets = 320, txPackets = 320, lostPackets = 0\<rparr>),
      (2, \<lparr>delaySum = 200000000, rxPackets = 320, txPackets = 320, lostPackets = 0\<rparr>),
      (3, \<lparr>delaySum = 100000000, rxPackets = 320, txPackets = 320, lostPackets = 0\<rparr>)]\<rparr>)
     = Some (5 / 8) \<and>
   avgDelayMs (metrics 5 \<lparr>sink = Some 0, stats =
     [(1, \<lparr>delaySum = 100000000, rxPackets = 320, txPackets = 320, lostPackets = 0\<rparr>),
      (2, \<lparr>delaySum = 200000000, rxPackets = 320, txPackets = 320, lostPackets = 0\<rparr>),
      (3, \<lparr>delaySum = 300000000, rxPackets = 320, txPackets = 320, lostPackets = 0\<rparr>)]\<rparr>)
     = Some (5629499534213121 / 2 ^ 53) \<and>
   (5 / 8 :: real) \<noteq> 5629499534213121 / 2 ^ 53 \<and>
   fields (row_text (metrics 5 \<lparr>sink = Some 0, stats =
     [(1, \<lparr>delaySum = 300000000, rxPackets = 320, txPackets = 320, lostPackets = 0\<rparr>),
      (2, \<lparr>delaySum = 200000000, rxPackets = 320, txPackets = 320, lostPackets = 0\<rparr>),
      (3, \<lparr>delaySum = 100000000, rxPackets = 320, txPackets = 320, lostPackets = 0\<rparr>)]\<rparr>))
     = [''5.00'', ''0.00'', ''0.62'', ''0.00''] \<and>
   fields (row_text (metrics 5 \<lparr>sink = Some 0, stats =
     [(1, \<lparr>delaySum = 100000000, rxPackets = 320, txPackets = 320, lostPackets = 0\<rparr>),
      (2, \<lparr>delaySum = 200000000, rxPackets = 320, txPackets = 320, lostPackets = 0\<rparr>),
      (3, \<lparr>delaySum = 300000000, rxPackets = 320, txPackets = 320, lostPackets = 0\<rparr>)]\<rparr>))
     = [''5.00'', ''0.00'', ''0.63'', ''0.00'']"
proof -
  have m: "mset (map snd
     [(1 :: FlowId, \<lparr>delaySum = 300000000, rxPackets = 320, txPackets = 320, lostPackets = 0\<rparr>),
      (2, \<lparr>delaySum = 200000000, rxPackets = 320, txPackets = 320, lostPackets = 0\<rparr>),
      (3, \<lparr>delaySum = 100000000, rxPackets = 320, txPackets = 320, lostPackets = 0\<rparr>)]) =
   mset (map snd
     [(1 :: FlowId, \<lparr>delaySum = 100000000, rxPackets = 320, txPackets = 320, lostPackets = 0\<rparr>),
      (2, \<lparr>delaySum = 200000000, rxPackets = 320, txPackets = 320, lostPackets = 0\<rparr>),
      (3, \<lparr>delaySum = 300000000, rxPackets = 320, txPackets = 320, lostPackets = 0\<rparr>)])"
    by simp
  have n: "(5 / 8 :: real) \<noteq> 5629499534213121 / 2 ^ 53"
    by simp
  from m n show ?thesis
    by (simp only: ce6_value ce6_value2 ce6_row ce6_row2 simp_thms)
qed

text \<open>C6, amended: for two iteration orders of the same flow records, the throughput and
  the loss percentage are identical. The exact value of the average delay is identical as
  well, and for records under distinct flow identifiers with delay sums that are not
  negative the two computed average delays differ by at most the exact value times
  \<open>(1 + u)^(n + 3) / (1 - u) - (1 - u)^(n + 3) / (1 + u)\<close>, where \<open>n\<close> is the number of
  records and \<open>u = 2^-53\<close>.\<close>

theorem aggregation_reordered:
  assumes "mset (map snd kvs) = mset (map snd kvs')"
  shows "throughputMbps (metrics d \<lparr>sink = s, stats = kvs\<rparr>) =
           throughputMbps (metrics d \<lparr>sink = s, stats = kvs'\<rparr>) \<and>
         lossPct (metrics d \<lparr>sink = s, stats = kvs\<rparr>) =
           lossPct (metrics d \<lparr>sink = s, stats = kvs'\<rparr>) \<and>
         spec_avgDelayMs kvs = spec_avgDelayMs kvs' \<and>
         (distinct (map fst kvs) \<and> distinct (map fst kvs') \<and> nonneg_delays kvs \<longrightarrow>
            (\<exists>a b. avgDelayMs (metrics d \<lparr>sink = s, stats = kvs\<rparr>) = Some a \<and>
                   avgDelayMs (metrics d \<lparr>sink = s, stats = kvs'\<rparr>) = Some b \<and>
                   \<bar>a - b\<bar> \<le> spec_avgDelayMs kvs *
                     ((1 + unit_roundoff) ^ (length kvs + 3) / (1 - unit_roundoff)) -
                     spec_avgDelayMs kvs *
                     ((1 - unit_roundoff) ^ (length kvs + 3) / (1 + unit_roundoff))))"
proof (intro conjI impI)
  show "throughputMbps (metrics d \<lparr>sink = s, stats = kvs\<rparr>) =
           throughputMbps (metrics d \<lparr>sink = s, stats = kvs'\<rparr>)"
    by (simp add: throughput_metrics)
  show "lossPct (metrics d \<lparr>sink = s, stats = kvs\<rparr>) =
           lossPct (metrics d \<lparr>sink = s, stats = kvs'\<rparr>)"
    by (simp add: metrics_def Let_def loss_reordered [OF assms])
  show sp: "spec_avgDelayMs kvs = spec_avgDelayMs kvs'"
    using assms by (rule spec_avgDelayMs_reordered)
  assume h: "distinct (map fst kvs) \<and> distinct (map fst kvs') \<and> nonneg_delays kvs"
  have n': "nonneg_delays kvs'"
    using assms h by (blast intro: nonneg_delays_reordered)
  have len: "length kvs' = length kvs"
    using length_reordered [OF assms] by simp
  have a: "avgDelayMs (metrics d \<lparr>sink = s, stats = kvs\<rparr>) = Some (rounded_avgDelayMs kvs)"
    using avgDelay_metrics [of "\<lparr>sink = s, stats = kvs\<rparr>" d] h by simp
  have b: "avgDelayMs (metrics d \<lparr>sink = s, stats = kvs'\<rparr>) = Some (rounded_avgDelayMs kvs')"
    using avgDelay_metrics [of "\<lparr>sink = s, stats = kvs'\<rparr>" d] h by simp
  have ba: "spec_avgDelayMs kvs *
              ((1 - unit_roundoff) ^ (length kvs + 3) / (1 + unit_roundoff))
              \<le> rounded_avgDelayMs kvs"
       "rounded_avgDelayMs kvs
              \<le> spec_avgDelayMs kvs *
                  ((1 + unit_roundoff) ^ (length kvs + 3) / (1 - unit_roundoff))"
    using rounded_avgDelayMs_close [of kvs] h by simp_all
  have bb: "spec_avgDelayMs kvs *
              ((1 - unit_roundoff) ^ (length kvs + 3) / (1 + unit_roundoff))
              \<le> rounded_avgDelayMs kvs'"
       "rounded_avgDelayMs kvs'
              \<le> spec_avgDelayMs kvs *
                  ((1 + unit_roundoff) ^ (length kvs + 3) / (1 - unit_roundoff))"
    using rounded_avgDelayMs_close [OF n'] by (simp_all only: len sp [symmetric])
  have "\<bar>rounded_avgDelayMs kvs - rounded_avgDelayMs kvs'\<bar> \<le>
          spec_avgDelayMs kvs *
            ((1 + unit_roundoff) ^ (length kvs + 3) / (1 - unit_roundoff)) -
          spec_avgDelayMs kvs *
            ((1 - unit_roundoff) ^ (length kvs + 3) / (1 + unit_roundoff))"
    by (rule between_bounds [OF ba bb])
  with a b show "\<exists>a b. avgDelayMs (metrics d \<lparr>sink = s, stats = kvs\<rparr>) = Some a \<and>
                   avgDelayMs (metrics d \<lparr>sink = s, stats = kvs'\<rparr>) = Some b \<and>
                   \<bar>a - b\<bar> \<le> spec_avgDelayMs kvs *
                     ((1 + unit_roundoff) ^ (length kvs + 3) / (1 - unit_roundoff)) -
                     spec_avgDelayMs kvs *
                     ((1 - unit_roundoff) ^ (length kvs + 3) / (1 + unit_roundoff))"
    by blast
qed

theorem aggregation_reordered_witness:
  "mset (map snd
     [(1 :: FlowId, \<lparr>delaySum = 300000000, rxPackets = 320, txPackets = 320, lostPackets = 0\<rparr>),
      (2, \<lparr>delaySum = 200000000, rxPackets = 320, txPackets = 320, lostPackets = 0\<rparr>),
      (3, \<lparr>delaySum = 100000000, rxPackets = 320, txPackets = 320, lostPackets = 0\<rparr>)]) =
   mset (map snd
     [(1 :: FlowId, \<lparr>delaySum = 100000000, rxPackets = 320, txPackets = 320, lostPackets = 0\<rparr>),
      (2, \<lparr>delaySum = 200000000, rxPackets = 320, txPackets = 320, lostPackets = 0\<rparr>),
      (3, \<lparr>delaySum = 300000000, rxPackets = 320, txPackets = 320, lostPackets = 0\<rparr>)]) \<and>
   distinct (map fst
     [(1 :: FlowId, \<lparr>delaySum = 300000000, rxPackets = 320, txPackets = 320, lostPackets = 0\<rparr>),
      (2, \<lparr>delaySum = 200000000, rxPackets = 320, txPackets = 320, lostPackets = 0\<rparr>),
      (3, \<lparr>delaySum = 100000000, rxPackets = 320, txPackets = 320, lostPackets = 0\<rparr>)]) \<and>
   distinct (map fst
     [(1 :: FlowId, \<lparr>delaySum = 100000000, rxPackets = 320, txPackets = 320, lostPackets = 0\<rparr>),
      (2, \<lparr>delaySum = 200000000, rxPackets = 320, txPackets = 320, lostPackets = 0\<rparr>),
      (3, \<lparr>delaySum = 300000000, rxPackets = 320, txPackets = 320, lostPackets = 0\<rparr>)]) \<and>
   nonneg_delays
     [(1 :: FlowId, \<lparr>delaySum = 300000000, rxPackets = 320, txPackets = 320, lostPackets = 0\<rparr>),
      (2, \<lparr>delaySum = 200000000, rxPackets = 320, txPackets = 320, lostPackets = 0\<rparr>),
      (3, \<lparr>delaySum = 100000000, rxPackets = 320, txPackets = 320, lostPackets = 0\<rparr>)] \<and>
   lossPct (metrics 5 \<lparr>sink = Some 1250000, stats =
     [(1, \<lparr>delaySum = 300000000, rxPackets = 320, txPackets = 320, lostPackets = 0\<rparr>),
      (2, \<lparr>delaySum = 200000000, rxPackets = 320, txPackets = 320, lostPackets = 0\<rparr>),
      (3, \<lparr>delaySum = 100000000, rxPackets = 320, txPackets = 320, lostPackets = 0\<rparr>)]\<rparr>) =
   lossPct (metrics 5 \<lparr>sink = Some 1250000, stats =
     [(1, \<lparr>delaySum = 100000000, rxPackets = 320, txPackets = 320, lostPackets = 0\<rparr>),
      (2, \<lparr>delaySum = 200000000, rxPackets = 320, txPackets = 320, lostPackets = 0\<rparr>),
      (3, \<lparr>delaySum = 300000000, rxPackets = 320, txPackets = 320, lostPackets = 0\<rparr>)]\<rparr>) \<and>
   (\<exists>a b.
      avgDelayMs (metrics 5 \<lparr>sink = Some 1250000, stats =
        [(1, \<lparr>delaySum = 300000000, rxPackets = 320, txPackets = 320, lostPackets = 0\<rparr>),
         (2, \<lparr>delaySum = 200000000, rxPackets = 320, txPackets = 320, lostPackets = 0\<rparr>),
         (3, \<lparr>delaySum = 100000000, rxPackets = 320, txPackets = 320, lostPackets = 0\<rparr>)]\<rparr>)
        = Some a \<and>
      avgDelayMs (metrics 5 \<lparr>sink = Some 1250000, stats =
        [(1, \<lparr>delaySum = 100000000, rxPackets = 320, txPackets = 320, lostPackets = 0\<rparr>),
         (2, \<lparr>delaySum = 200000000, rxPackets = 320, txPackets = 320, lostPackets = 0\<rparr>),
         (3, \<lparr>delaySum = 300000000, rxPackets = 320, txPackets = 320, lostPackets = 0\<rparr>)]\<rparr>)
        = Some b \<and>
      \<bar>a - b\<bar> \<le>
        spec_avgDelayMs
          [(1, \<lparr>delaySum = 300000000, rxPackets = 320, txPackets = 320, lostPackets = 0\<rparr>),
           (2, \<lparr>delaySum = 200000000, rxPackets = 320, txPackets = 320, lostPackets = 0\<rparr>),
           (3, \<lparr>delaySum = 100000000, rxPackets = 320, txPackets = 320, lostPackets = 0\<rparr>)] *
          ((1 + unit_roundoff) ^ 6 / (1 - unit_roundoff)) -
        spec_avgDelayMs
          [(1, \<lparr>delaySum = 300000000, rxPackets = 320, txPackets = 320, lostPackets = 0\<rparr>),
           (2, \<lparr>delaySum = 200000000, rxPackets = 320, txPackets = 320, lostPackets = 0\<rparr>),
           (3, \<lparr>delaySum = 100000000, rxPackets = 320, txPackets = 320, lostPackets = 0\<rparr>)] *
          ((1 - unit_roundoff) ^ 6 / (1 + unit_roundoff)))"
proof -
  let ?A = "[(1 :: FlowId, \<lparr>delaySum = 300000000, rxPackets = 320, txPackets = 320, lostPackets = 0\<rparr>),
      (2, \<lparr>delaySum = 200000000, rxPackets = 320, txPackets = 320, lostPackets = 0\<rparr>),
      (3, \<lparr>delaySum = 100000000, rxPackets = 320, txPackets = 320, lostPackets = 0\<rparr>)]"
  let ?B = "[(1 :: FlowId, \<lparr>delaySum = 100000000, rxPackets = 320, txPackets = 320, lostPackets = 0\<rparr>),
      (2, \<lparr>delaySum = 200000000, rxPackets = 320, txPackets = 320, lostPackets = 0\<rparr>),
      (3, \<lparr>delaySum = 300000000, rxPackets = 320, txPackets = 320, lostPackets = 0\<rparr>)]"
  have m: "mset (map snd ?A) = mset (map snd ?B)" by simp
  have dA: "distinct (map fst ?A)" by simp
  have dB: "distinct (map fst ?B)" by simp
  have nA: "nonneg_delays ?A" by (simp add: nonneg_delays_def)
  have lA: "length ?A + 3 = 6" by simp
  note t = aggregation_reordered [OF m, of 5 "Some 1250000", unfolded lA]
  from t m dA dB nA show ?thesis
    by blast
qed

text \<open>C7, as stated: with counters and delay sums that are not negative, every row has
  \<open>throughputMbps \<ge> 0\<close>, \<open>avgDelayMs \<ge> 0\<close> and \<open>0 \<le> lossPct \<le> 100\<close>. The upper bound
  fails in two ways. A flow that reports more lost than sent packets exceeds it: one flow
  with \<open>txPackets = 1\<close> and \<open>lostPackets = 2\<close> gives a loss of \<open>200\<close> percent. And the
  rounding of the doubles exceeds it even when every sent packet is lost and none more:
  \<open>100001\<close> flows with \<open>4294967295\<close> sent and as many lost packets each give
  \<open>100 + 2^-46\<close>.\<close>

theorem loss_above_100_counterexample:
  "distinct (map fst [(1 :: FlowId, \<lparr>delaySum = 0, rxPackets = 0, txPackets = 1, lostPackets = 2\<rparr>)]) \<and>
   nonneg_delays [(1, \<lparr>delaySum = 0, rxPackets = 0, txPackets = 1, lostPackets = 2\<rparr>)] \<and>
   lossPct (metrics 5 \<lparr>sink = Some 0, stats =
     [(1, \<lparr>delaySum = 0, rxPackets = 0, txPackets = 1, lostPackets = 2\<rparr>)]\<rparr>) = Some 200 \<and>
   \<not> row_in_range (metrics 5 \<lparr>sink = Some 0, stats =
     [(1, \<lparr>delaySum = 0, rxPackets = 0, txPackets = 1, lostPackets = 2\<rparr>)]\<rparr>) \<and>
   distinct (map fst (many_flows 100001
     \<lparr>delaySum = 0, rxPackets = 0, txPackets = 4294967295, lostPackets = 4294967295\<rparr>)) \<and>
   nonneg_delays (many_flows 100001
     \<lparr>delaySum = 0, rxPackets = 0, txPackets = 4294967295, lostPackets = 4294967295\<rparr>) \<and>
   sum_lost (many_flows 100001
     \<lparr>delaySum = 0, rxPackets = 0, txPackets = 4294967295, lostPackets = 4294967295\<rparr>) =
   sum_tx (many_flows 100001
     \<lparr>delaySum = 0, rxPackets = 0, txPackets = 4294967295, lostPackets = 4294967295\<rparr>) \<and>
   lossPct (metrics 5 \<lparr>sink = Some 0, stats = many_flows 100001
     \<lparr>delaySum = 0, rxPackets = 0, txPackets = 4294967295, lostPackets = 4294967295\<rparr>\<rparr>)
     = Some (100 + 1 / 2 ^ 46) \<and>
   \<not> row_in_range (metrics 5 \<lparr>sink = Some 0, stats = many_flows 100001
     \<lparr>delaySum = 0, rxPackets = 0, txPackets = 4294967295, lostPackets = 4294967295\<rparr>\<rparr>)"
proof -
  let ?one = "[(1 :: FlowId, \<lparr>delaySum = 0, rxPackets = 0, txPackets = 1, lostPackets = 2\<rparr>)]"
  let ?st = "\<lparr>delaySum = 0, rxPackets = 0, txPackets = 4294967295, lostPackets = 4294967295\<rparr>"
  have a: "distinct (map fst ?one)" by simp
  have b: "nonneg_delays ?one" by (simp add: nonneg_delays_def)
  have c: "\<not> row_in_range (metrics 5 \<lparr>sink = Some 0, stats = ?one\<rparr>)"
    using metrics_finite [of 5 "\<lparr>sink = Some 0, stats = ?one\<rparr>"]
    by (auto simp add: row_in_range_def ce7_small)
  have d: "distinct (map fst (many_flows 100001 ?st))"
    by (rule distinct_many_flows) simp
  have e: "nonneg_delays (many_flows 100001 ?st)"
    by (simp add: nonneg_delays_records map_snd_many_flows)
  have f: "sum_lost (many_flows 100001 ?st) = sum_tx (many_flows 100001 ?st)"
    by (simp only: ce7_sums)
  have g: "\<not> row_in_range (metrics 5 \<lparr>sink = Some 0, stats = many_flows 100001 ?st\<rparr>)"
    using metrics_finite [of 5 "\<lparr>sink = Some 0, stats = many_flows 100001 ?st\<rparr>"]
    by (auto simp add: row_in_range_def ce7_value)
  from a b c d e f g show ?thesis
    by (simp only: ce7_small ce7_value simp_thms)
qed

text \<open>C7, amended: for flow records with delay sums that are not negative, the three
  metrics are numbers with \<open>throughputMbps \<ge> 0\<close>, \<open>avgDelayMs \<ge> 0\<close> and \<open>lossPct \<ge> 0\<close>.
  The loss is \<open>0\<close> when no packet was sent. When the total of lost packets does not exceed
  the total of sent packets, and that total is below \<open>2^64\<close> (as it is for a map with
  32-bit keys), the loss is at most \<open>100 + 2^-46\<close>; when in addition a hundred times the
  total of lost packets is below \<open>2^53\<close>, it is at most \<open>100\<close>.\<close>

theorem metrics_in_range:
  assumes "nonneg_delays (stats out)"
  shows "\<exists>t a l. throughputMbps (metrics d out) = Some t \<and>
           avgDelayMs (metrics d out) = Some a \<and> lossPct (metrics d out) = Some l \<and>
           0 \<le> t \<and> 0 \<le> a \<and> 0 \<le> l \<and>
           (sum_tx (stats out) = 0 \<longrightarrow> l = 0) \<and>
           (sum_lost (stats out) \<le> sum_tx (stats out) \<and> sum_tx (stats out) < 2 ^ 64 \<longrightarrow>
              l \<le> 100 + 1 / 2 ^ 46) \<and>
           (sum_lost (stats out) \<le> sum_tx (stats out) \<and> sum_tx (stats out) < 2 ^ 64 \<and>
            100 * sum_lost (stats out) < 2 ^ 53 \<longrightarrow>
              l \<le> 100 \<and> row_in_range (metrics d out))"
proof -
  let ?c = "accumulate initCounters (stats out)"
  define t where "t = rounded_throughput (totalRx (sink out))"
  define a where "a = (if unat (rxTotal ?c) = 0 then 0
           else fl (fl (sum_delay (stats out) / fl (real (unat (rxTotal ?c)))) * 1000))"
  define l where "l = (if unat (txTotal ?c) = 0 then 0
           else fl (fl (100 * fl (real (unat (lostTotal ?c)))) / fl (real (unat (txTotal ?c)))))"
  have vt: "throughputMbps (metrics d out) = Some t"
    unfolding t_def by (rule throughput_metrics)
  have va: "avgDelayMs (metrics d out) = Some a"
    unfolding a_def by (rule avgDelay_metrics_value)
  have vl: "lossPct (metrics d out) = Some l"
    unfolding l_def by (rule loss_metrics_value)
  have t0: "0 \<le> t"
    unfolding t_def by (rule rounded_throughput_nonneg)
  have a0: "0 \<le> a"
    unfolding a_def
    using avg_expr_nonneg [OF sum_delay_nonneg [OF assms], of "unat (rxTotal ?c)"]
    by (simp only: order_refl simp_thms split: if_split)
  have l0: "0 \<le> l"
    unfolding l_def
    using loss_expr_nonneg [of "unat (lostTotal ?c)" "unat (txTotal ?c)"]
    by (simp only: order_refl simp_thms split: if_split)
  have z: "l = 0" if "sum_tx (stats out) = 0"
    unfolding l_def using tx_zero [OF that] by simp
  have up: "l \<le> 100 + 1 / 2 ^ 46"
    if h: "sum_lost (stats out) \<le> sum_tx (stats out) \<and> sum_tx (stats out) < 2 ^ 64"
  proof (cases "sum_tx (stats out) = 0")
    case True
    then show ?thesis using z by simp
  next
    case False
    then have p: "0 < sum_tx (stats out)" by simp
    from h have h1: "sum_lost (stats out) \<le> sum_tx (stats out)"
      and h2: "sum_tx (stats out) < 2 ^ 64" by simp_all
    show ?thesis
      unfolding l_def using loss_expr_le [OF h1 p] False
      by (simp only: totals_nowrap [OF h1 h2] if_False)
  qed
  have le: "l \<le> 100"
    if h: "sum_lost (stats out) \<le> sum_tx (stats out) \<and> sum_tx (stats out) < 2 ^ 64 \<and>
            100 * sum_lost (stats out) < 2 ^ 53"
  proof (cases "sum_tx (stats out) = 0")
    case True
    then show ?thesis using z by simp
  next
    case False
    then have p: "0 < sum_tx (stats out)" by simp
    from h have h1: "sum_lost (stats out) \<le> sum_tx (stats out)"
      and h2: "sum_tx (stats out) < 2 ^ 64"
      and h3: "100 * sum_lost (stats out) < 2 ^ 53" by simp_all
    show ?thesis
      unfolding l_def using loss_expr_le_100 [OF h1 p h3] False
      by (simp only: totals_nowrap [OF h1 h2] if_False)
  qed
  have r: "row_in_range (metrics d out)"
    if h: "sum_lost (stats out) \<le> sum_tx (stats out) \<and> sum_tx (stats out) < 2 ^ 64 \<and>
            100 * sum_lost (stats out) < 2 ^ 53"
    using le [OF h] t0 a0 l0 by (simp add: row_in_range_def vt va vl)
  have "throughputMbps (metrics d out) = Some t \<and>
           avgDelayMs (metrics d out) = Some a \<and> lossPct (metrics d out) = Some l \<and>
           0 \<le> t \<and> 0 \<le> a \<and> 0 \<le> l \<and>
           (sum_tx (stats out) = 0 \<longrightarrow> l = 0) \<and>
           (sum_lost (stats out) \<le> sum_tx (stats out) \<and> sum_tx (stats out) < 2 ^ 64 \<longrightarrow>
              l \<le> 100 + 1 / 2 ^ 46) \<and>
           (sum_lost (stats out) \<le> sum_tx (stats out) \<and> sum_tx (stats out) < 2 ^ 64 \<and>
            100 * sum_lost (stats out) < 2 ^ 53 \<longrightarrow>
              l \<le> 100 \<and> row_in_range (metrics d out))"
    using vt va vl t0 a0 l0 z up le r by (intro conjI impI) assumption+
  then show ?thesis
    by (intro exI)
qed

theorem metrics_in_range_witness:
  "nonneg_delays
     [(1 :: FlowId, \<lparr>delaySum = 250000000, rxPackets = 58, txPackets = 60, lostPackets = 2\<rparr>),
      (2, \<lparr>delaySum = 750000000, rxPackets = 37, txPackets = 40, lostPackets = 3\<rparr>)] \<and>
   sum_lost
     [(1 :: FlowId, \<lparr>delaySum = 250000000, rxPackets = 58, txPackets = 60, lostPackets = 2\<rparr>),
      (2, \<lparr>delaySum = 750000000, rxPackets = 37, txPackets = 40, lostPackets = 3\<rparr>)] \<le>
   sum_tx
     [(1 :: FlowId, \<lparr>delaySum = 250000000, rxPackets = 58, txPackets = 60, lostPackets = 2\<rparr>),
      (2, \<lparr>delaySum = 750000000, rxPackets = 37, txPackets = 40, lostPackets = 3\<rparr>)] \<and>
   sum_tx
     [(1 :: FlowId, \<lparr>delaySum = 250000000, rxPackets = 58, txPackets = 60, lostPackets = 2\<rparr>),
      (2, \<lparr>delaySum = 750000000, rxPackets = 37, txPackets = 40, lostPackets = 3\<rparr>)] < 2 ^ 64 \<and>
   100 * sum_lost
     [(1 :: FlowId, \<lparr>delaySum = 250000000, rxPackets = 58, txPackets = 60, lostPackets = 2\<rparr>),
      (2, \<lparr>delaySum = 750000000, rxPackets = 37, txPackets = 40, lostPackets = 3\<rparr>)] < 2 ^ 53 \<and>
   row_in_range (metrics 5 \<lparr>sink = Some 1250000, stats =
     [(1, \<lparr>delaySum = 250000000, rxPackets = 58, txPackets = 60, lostPackets = 2\<rparr>),
      (2, \<lparr>delaySum = 750000000, rxPackets = 37, txPackets = 40, lostPackets = 3\<rparr>)]\<rparr>) \<and>
   nonneg_delays
     [(7 :: FlowId, \<lparr>delaySum = 0, rxPackets = 0, txPackets = 0, lostPackets = 4\<rparr>)] \<and>
   sum_tx [(7 :: FlowId, \<lparr>delaySum = 0, rxPackets = 0, txPackets = 0, lostPackets = 4\<rparr>)] = 0 \<and>
   lossPct (metrics 5 \<lparr>sink = Some 0, stats =
     [(7, \<lparr>delaySum = 0, rxPackets = 0, txPackets = 0, lostPackets = 4\<rparr>)]\<rparr>) = Some 0"
proof -
  let ?A = "[(1 :: FlowId, \<lparr>delaySum = 250000000, rxPackets = 58, txPackets = 60, lostPackets = 2\<rparr>),
             (2, \<lparr>delaySum = 750000000, rxPackets = 37, txPackets = 40, lostPackets = 3\<rparr>)]"
  let ?B = "[(7 :: FlowId, \<lparr>delaySum = 0, rxPackets = 0, txPackets = 0, lostPackets = 4\<rparr>)]"
  have nA: "nonneg_delays ?A" by (simp add: nonneg_delays_def)
  have nB: "nonneg_delays ?B" by (simp add: nonneg_delays_def)
  have tA: "sum_tx ?A = 100" by (simp add: sum_tx_def)
  have lA: "sum_lost ?A = 5" by (simp add: sum_lost_def)
  have h1: "sum_lost ?A \<le> sum_tx ?A" by (simp add: tA lA)
  have h2: "sum_tx ?A < 2 ^ 64" by (simp add: tA)
  have h3: "100 * sum_lost ?A < 2 ^ 53" by (simp add: lA)
  have zB: "sum_tx ?B = 0" by (simp add: sum_tx_def)
  note a = metrics_in_range [of "\<lparr>sink = Some 1250000, stats = ?A\<rparr>" 5,
      unfolded EngineOutput.simps, OF nA]
  note b = metrics_in_range [of "\<lparr>sink = Some 0, stats = ?B\<rparr>" 5,
      unfolded EngineOutput.simps, OF nB]
  from a h1 h2 h3 have ra: "row_in_range (metrics 5 \<lparr>sink = Some 1250000, stats = ?A\<rparr>)"
    by blast
  from b zB have rb: "lossPct (metrics 5 \<lparr>sink = Some 0, stats = ?B\<rparr>) = Some 0"
    by blast
  from nA nB h1 h2 h3 zB ra rb show ?thesis
    by blast
qed

text \<open>C8. The row appended for a scenario consists of the distance, the throughput, the
  average delay and the loss, in this order, each printed by \<open>fixed2\<close>, separated by
  commas and ended by a newline; splitting the line at the commas gives back these four
  fields. What \<open>fixed2\<close> prints has exactly two digits after the point and denotes a
  number within half a hundredth of the value. In a store that did not exist the rows
  stand below the header line
  \<^verbatim>\<open>distance_m,throughput_mbps,avg_delay_ms,packet_loss_percent\<close>.\<close>

theorem row_format:
  "(\<exists>t a l. throughputMbps (scenario eng n d) = Some t \<and>
      avgDelayMs (scenario eng n d) = Some a \<and> lossPct (scenario eng n d) = Some l \<and>
      csv_row (scenario eng n d) =
        fixed2 d @ '','' @ fixed2 t @ '','' @ fixed2 a @ '','' @ fixed2 l @ [CHR 0x0A] \<and>
      fields (row_text (scenario eng n d)) = [fixed2 d, fixed2 t, fixed2 a, fixed2 l]) \<and>
   fraction_digits (fixed2 x) = [digit_char (hundredths x div 10), digit_char (hundredths x)] \<and>
   \<bar>fixed_value (fixed2 x) - x\<bar> \<le> 1 / 200 \<and>
   run_scenario eng n csv d = append_csv csv (csv_row (scenario eng n d)) \<and>
   csv_lines (campaign eng n ds None) =
     ''distance_m,throughput_mbps,avg_delay_ms,packet_loss_percent'' #
       map (\<lambda>d. row_text (scenario eng n d)) ds"
proof -
  obtain t a l where m: "throughputMbps (scenario eng n d) = Some t"
      "avgDelayMs (scenario eng n d) = Some a" "lossPct (scenario eng n d) = Some l"
    using metrics_finite [of d "eng d (senders n)"] by (auto simp: scenario_def)
  have "csv_row (scenario eng n d) =
        fixed2 d @ '','' @ fixed2 t @ '','' @ fixed2 a @ '','' @ fixed2 l @ [CHR 0x0A]"
    by (simp add: csv_row_def m put_double_Some distance_scenario)
  moreover have "fields (row_text (scenario eng n d)) = [fixed2 d, fixed2 t, fixed2 a, fixed2 l]"
    by (simp add: fields_row_text m put_double_Some distance_scenario)
  ultimately have first: "\<exists>t a l. throughputMbps (scenario eng n d) = Some t \<and>
      avgDelayMs (scenario eng n d) = Some a \<and> lossPct (scenario eng n d) = Some l \<and>
      csv_row (scenario eng n d) =
        fixed2 d @ '','' @ fixed2 t @ '','' @ fixed2 a @ '','' @ fixed2 l @ [CHR 0x0A] \<and>
      fields (row_text (scenario eng n d)) = [fixed2 d, fixed2 t, fixed2 a, fixed2 l]"
    using m by blast
  have "csv_lines (campaign eng n ds None) =
     ''distance_m,throughput_mbps,avg_delay_ms,packet_loss_percent'' #
       map (\<lambda>d. row_text (scenario eng n d)) ds"
    by (simp only: csv_lines_fresh header_line_def)
  with first fraction_digits_fixed2 [of x] fixed2_accurate [of x] show ?thesis
    by (simp only: run_scenario_def simp_thms)
qed




text \<open>C10. If the cast of the access point's application to a packet sink yields a null
  pointer, the byte total stays at its initial value \<open>0\<close>, and the throughput of the
  scenario is computed as \<open>0\<close> and written as \<open>0.00\<close>.\<close>

theorem null_sink_throughput_zero:
  assumes "sink (eng d (senders n)) = None"
  shows "totalRx (sink (eng d (senders n))) = 0 \<and>
         throughputMbps (scenario eng n d) = Some 0 \<and>
         take 2 (fields (row_text (scenario eng n d))) = [fixed2 d, ''0.00'']"
proof -
  have z: "totalRx (sink (eng d (senders n))) = 0"
    using assms by (simp add: totalRx_def)
  then have thr: "throughputMbps (scenario eng n d) = Some 0"
    by (simp add: throughput_scenario rounded_throughput_zero)
  have "distance (scenario eng n d) = d"
    by (simp add: scenario_def metrics_def Let_def)
  with thr have "take 2 (fields (row_text (scenario eng n d))) = [fixed2 d, ''0.00'']"
    by (simp add: fields_row_text put_double_Some fixed2_zero)
  with z thr show ?thesis by simp
qed

theorem null_sink_throughput_zero_witness:
  "sink ((\<lambda>d s. \<lparr>sink = None, stats = []\<rparr>) (5::real) (senders 3)) = None \<and>
   throughputMbps (scenario (\<lambda>d s. \<lparr>sink = None, stats = []\<rparr>) 3 5) = Some 0 \<and>
   take 2 (fields (row_text (scenario (\<lambda>d s. \<lparr>sink = None, stats = []\<rparr>) 3 5))) =
     [''5.00'', ''0.00'']"
proof -
  have f: "fixed2 5 = ''5.00''"
    by (simp add: fixed2_def hundredths_def rint_def digit_char_def dec_digits_small)
  show ?thesis
    using null_sink_throughput_zero [of "\<lambda>d s. \<lparr>sink = None, stats = []\<rparr>" 5 3] f
    by simp
qed

end
